theory Spec2Isabelle
  imports Main "HOL-Library.Word" "HOL-Library.Sublist"
begin

section \<open>JavaScript strings\<close>

text \<open>
  A JavaScript string is a sequence of UTF-16 code units. The scanner only ever compares
  code units with constants, so a string is a list of 16-bit words. \<open>js\<close> embeds an
  ASCII literal.
\<close>

type_synonym cu = "16 word"
type_synonym jsstring = "cu list"

definition js :: "string \<Rightarrow> jsstring" where
  "js s = map (\<lambda>c. of_nat (of_char c)) s"

definition LF :: cu where
  "LF = 0x0A"

definition SLASH :: cu where
  "SLASH = 0x2F"

text \<open>
  ECMAScript \<open>LineTerminator\<close>: LF, CR, LS and PS. The pattern character \<open>.\<close>
  (without the \<open>s\<close> flag) matches every code unit but these.
\<close>

definition is_line_terminator :: "cu \<Rightarrow> bool" where
  "is_line_terminator c = (c = 0x0A \<or> c = 0x0D \<or> c = 0x2028 \<or> c = 0x2029)"

text \<open>
  ECMAScript \<open>WhiteSpace\<close>: TAB, VT, FF, ZWNBSP and the Unicode space separators
  (SP, NBSP, U+1680, U+2000..U+200A, U+202F, U+205F, U+3000).
\<close>

definition is_white_space :: "cu \<Rightarrow> bool" where
  "is_white_space c =
     (c = 0x09 \<or> c = 0x0B \<or> c = 0x0C \<or> c = 0x20 \<or> c = 0xA0 \<or> c = 0x1680 \<or>
      c = 0x2000 \<or> c = 0x2001 \<or> c = 0x2002 \<or> c = 0x2003 \<or> c = 0x2004 \<or> c = 0x2005 \<or>
      c = 0x2006 \<or> c = 0x2007 \<or> c = 0x2008 \<or> c = 0x2009 \<or> c = 0x200A \<or>
      c = 0x202F \<or> c = 0x205F \<or> c = 0x3000 \<or> c = 0xFEFF)"

text \<open>The class \<open>\s\<close>, which is also what \<open>String.prototype.trim\<close> strips.\<close>

definition is_ws :: "cu \<Rightarrow> bool" where
  "is_ws c = (is_white_space c \<or> is_line_terminator c)"

definition is_dot :: "cu \<Rightarrow> bool" where
  "is_dot c = (\<not> is_line_terminator c)"

definition js_trim :: "jsstring \<Rightarrow> jsstring" where
  "js_trim s = rev (dropWhile is_ws (rev (dropWhile is_ws s)))"

text \<open>
  \<open>s.split(sep)\<close> for a separator of one code unit: the empty string gives one empty
  piece, and a trailing separator gives a trailing empty piece.
\<close>

fun js_split :: "cu \<Rightarrow> jsstring \<Rightarrow> jsstring list" where
  "js_split sep [] = [[]]"
| "js_split sep (c # cs) =
     (if c = sep then [] # js_split sep cs
      else (case js_split sep cs of [] \<Rightarrow> [[c]] | l # ls \<Rightarrow> (c # l) # ls))"

text \<open>\<open>pieces.join(sep)\<close> for a separator of one code unit.\<close>

fun js_join :: "cu \<Rightarrow> jsstring list \<Rightarrow> jsstring" where
  "js_join sep [] = []"
| "js_join sep [s] = s"
| "js_join sep (s # t # ss) = s @ sep # js_join sep (t # ss)"

section \<open>Regular expressions\<close>

text \<open>
  The two patterns of the scanner use literals, greedy \<open>*\<close> and \<open>+\<close> over a
  character class, one capture group and the anchors \<open>^\<close> and \<open>$\<close>. \<open>rx_run\<close> is
  the backtracking matcher as a list of successes: every way the pattern can consume a
  prefix of the input, in the order in which backtracking tries them (a greedy quantifier
  tries the longest run first), each with the text of group 1 when it took part and the
  rest of the input.
\<close>

datatype rx =
  Lit jsstring
| Star "cu \<Rightarrow> bool"
| Plus "cu \<Rightarrow> bool"
| Group rx
| Seq rx rx

fun greedy :: "(cu \<Rightarrow> bool) \<Rightarrow> jsstring \<Rightarrow> jsstring list" where
  "greedy p [] = [[]]"
| "greedy p (c # cs) = (if p c then greedy p cs @ [c # cs] else [c # cs])"

fun rx_run :: "rx \<Rightarrow> jsstring \<Rightarrow> (jsstring option \<times> jsstring) list" where
  "rx_run (Lit w) s = (if prefix w s then [(None, drop (length w) s)] else [])"
| "rx_run (Star p) s = map (Pair None) (greedy p s)"
| "rx_run (Plus p) s =
     (case s of [] \<Rightarrow> [] | c # cs \<Rightarrow> if p c then map (Pair None) (greedy p cs) else [])"
| "rx_run (Group r) s =
     map (\<lambda>m. (Some (take (length s - length (snd m)) s), snd m)) (rx_run r s)"
| "rx_run (Seq a b) s =
     concat (map (\<lambda>m. map (\<lambda>n. (case fst n of None \<Rightarrow> fst m | Some g \<Rightarrow> Some g, snd n))
                           (rx_run b (snd m)))
                 (rx_run a s))"

text \<open>
  \<open>/^r$/\<close> without flags on a whole string: the match starts at index 0 (at any other
  start \<open>^\<close> fails) and the first success that has consumed the whole input is the
  match. The result is \<open>None\<close> for \<open>null\<close>, otherwise group 1 of the match array
  (\<open>None\<close> for \<open>undefined\<close>). A pattern without the \<open>g\<close> or \<open>y\<close> flag keeps no
  state between calls.
\<close>

definition rx_exec :: "rx \<Rightarrow> jsstring \<Rightarrow> jsstring option option" where
  "rx_exec r s =
     (case filter (\<lambda>m. snd m = []) (rx_run r s) of [] \<Rightarrow> None | m # _ \<Rightarrow> Some (fst m))"

definition rx_test :: "rx \<Rightarrow> jsstring \<Rightarrow> bool" where
  "rx_test r s = (rx_exec r s \<noteq> None)"

definition KEYWORD :: jsstring where
  "KEYWORD = js ''@include''"

text \<open>\<^verbatim>\<open>/^\s*@include\s+(.+)$/\<close>\<close>

definition INCLUDE_DIRECTIVE_REGEX :: rx where
  "INCLUDE_DIRECTIVE_REGEX =
     Seq (Star is_ws) (Seq (Lit KEYWORD) (Seq (Plus is_ws) (Group (Plus is_dot))))"

text \<open>\<^verbatim>\<open>/^\s*@include\s*$/\<close>\<close>

definition INCOMPLETE_INCLUDE_REGEX :: rx where
  "INCOMPLETE_INCLUDE_REGEX = Seq (Star is_ws) (Seq (Lit KEYWORD) (Star is_ws))"

section \<open>The path module (POSIX) and the home directory\<close>

text \<open>
  The scanner calls Node's \<open>path.join\<close>, \<open>path.normalize\<close>, \<open>path.resolve\<close>,
  \<open>path.isAbsolute\<close> and \<open>os.homedir\<close>. They are library code; this is their POSIX
  behaviour. The home directory and the working directory come from the process, so they
  are parameters.
\<close>

record os_env =
  homedir :: jsstring
  cwd :: jsstring

text \<open>
  \<open>normalizeString\<close> of the path module walks the segments between separators: an
  empty segment and \<open>.\<close> are dropped; \<open>..\<close> removes the last kept segment unless
  there is none or it is \<open>..\<close> itself, in which case it is kept when the path may climb
  above its root and dropped otherwise; any other segment is kept. The kept segments are
  held in reverse.
\<close>

fun norm_segs :: "bool \<Rightarrow> jsstring list \<Rightarrow> jsstring list \<Rightarrow> jsstring list" where
  "norm_segs allow acc [] = rev acc"
| "norm_segs allow acc (s # ss) =
     (if s = [] \<or> s = js ''.'' then norm_segs allow acc ss
      else if s = js ''..'' then
        (if acc \<noteq> [] \<and> hd acc \<noteq> js ''..'' then norm_segs allow (tl acc) ss
         else if allow then norm_segs allow (js ''..'' # acc) ss
         else norm_segs allow acc ss)
      else norm_segs allow (s # acc) ss)"

definition normalizeString :: "jsstring \<Rightarrow> bool \<Rightarrow> jsstring" where
  "normalizeString p allowAboveRoot =
     js_join SLASH (norm_segs allowAboveRoot [] (js_split SLASH p))"

definition path_isAbsolute :: "jsstring \<Rightarrow> bool" where
  "path_isAbsolute p = (p \<noteq> [] \<and> hd p = SLASH)"

definition path_normalize :: "jsstring \<Rightarrow> jsstring" where
  "path_normalize p =
     (if p = [] then js ''.''
      else
        let isAbsolute = (hd p = SLASH);
            trailingSeparator = (last p = SLASH);
            q = normalizeString p (\<not> isAbsolute)
        in if q = [] then
             (if isAbsolute then js ''/'' else if trailingSeparator then js ''./'' else js ''.'')
           else
             let q' = (if trailingSeparator then q @ js ''/'' else q)
             in if isAbsolute then js ''/'' @ q' else q')"

definition path_join :: "jsstring list \<Rightarrow> jsstring" where
  "path_join args =
     (let parts = filter (\<lambda>a. a \<noteq> []) args
      in if parts = [] then js ''.'' else path_normalize (js_join SLASH parts))"

text \<open>
  The loop of \<open>path.resolve\<close> goes through the arguments from the last to the first
  and then the working directory, skips empty ones, puts each before what it has with a
  separator, and stops after the first that starts with a separator.
\<close>

fun resolve_loop :: "jsstring list \<Rightarrow> jsstring \<Rightarrow> jsstring \<times> bool" where
  "resolve_loop [] resolvedPath = (resolvedPath, False)"
| "resolve_loop (p # ps) resolvedPath =
     (if p = [] then resolve_loop ps resolvedPath
      else if hd p = SLASH then (p @ SLASH # resolvedPath, True)
      else resolve_loop ps (p @ SLASH # resolvedPath))"

definition path_resolve :: "os_env \<Rightarrow> jsstring list \<Rightarrow> jsstring" where
  "path_resolve env args =
     (let (resolvedPath, resolvedAbsolute) = resolve_loop (rev args @ [cwd env]) [];
          n = normalizeString resolvedPath (\<not> resolvedAbsolute)
      in if resolvedAbsolute then js ''/'' @ n
         else if n \<noteq> [] then n else js ''.'')"

section \<open>Data of the inclusion resolver\<close>

text \<open>
  The types \<open>ProcessError\<close>, \<open>ProcessResult\<close> and \<open>ProcessOptions\<close> and the
  constant \<open>DEFAULT_MAX_DEPTH\<close> as the source declares them. \<open>readFile\<close> returns a
  promise; its outcome is the content, or a failure that says whether the file is missing.
  Reads are awaited one after the other, so the promise is modelled by its outcome.
\<close>

datatype ErrorType = file_not_found | circular_include | max_depth | read_error | parse_error

datatype read_outcome = Content jsstring | Missing | Failed

record ProcessError =
  filePath :: jsstring
  lineNumber :: "nat option"
  message :: jsstring
  type :: ErrorType

record ProcessResult =
  content :: jsstring
  includedPaths :: "jsstring list"
  errors :: "ProcessError list"

record ProcessOptions =
  readFile :: "jsstring \<Rightarrow> read_outcome"
  includedPaths :: "jsstring set"
  maxDepth :: int
  currentDepth :: int

definition DEFAULT_MAX_DEPTH :: int where
  "DEFAULT_MAX_DEPTH = 10"

section \<open>The directive scanner\<close>

record IncludeDirective =
  originalLine :: jsstring
  lineNumber :: nat
  rawPath :: jsstring
  resolvedPath :: jsstring

record ParseError =
  lineNumber :: nat
  line :: jsstring
  message :: jsstring

record ParseResult =
  originalContent :: jsstring
  directives :: "IncludeDirective list"
  errors :: "ParseError list"

definition normalizePath :: "os_env \<Rightarrow> jsstring \<Rightarrow> jsstring \<Rightarrow> jsstring" where
  "normalizePath env inputPath basePath =
     (let trimmedPath = js_trim inputPath
      in if prefix (js ''~/'') trimmedPath \<or> trimmedPath = js ''~'' then
           (let homeDir = homedir env
            in if trimmedPath = js ''~'' then homeDir
               else path_join [homeDir, drop 2 trimmedPath])
         else if path_isAbsolute trimmedPath then path_normalize trimmedPath
         else path_resolve env [basePath, trimmedPath])"

text \<open>
  Group 1 takes part in every match of the directive pattern (lemma
  \<open>include_regex_group\<close> below), so \<open>match[1]\<close> is never \<open>undefined\<close>.
\<close>

definition parseIncludeLine ::
  "os_env \<Rightarrow> jsstring \<Rightarrow> nat \<Rightarrow> jsstring \<Rightarrow> IncludeDirective option" where
  "parseIncludeLine env ln lineNo basePath =
     (case rx_exec INCLUDE_DIRECTIVE_REGEX ln of
        None \<Rightarrow> None
      | Some None \<Rightarrow> None
      | Some (Some m1) \<Rightarrow>
          (let rawPath = js_trim m1
           in if rawPath = [] then None
              else Some \<lparr>originalLine = ln, lineNumber = lineNo, rawPath = rawPath,
                         resolvedPath = normalizePath env rawPath basePath\<rparr>))"

definition EMPTY_PATH_MESSAGE :: jsstring where
  "EMPTY_PATH_MESSAGE = js ''Invalid @include directive: path cannot be empty''"

text \<open>
  The loop of \<open>parseIncludeDirectives\<close> over the lines from index \<open>i\<close> on, with the two
  arrays it pushes to.
\<close>

fun parse_loop ::
  "os_env \<Rightarrow> jsstring \<Rightarrow> nat \<Rightarrow> jsstring list \<Rightarrow>
   IncludeDirective list \<times> ParseError list \<Rightarrow> IncludeDirective list \<times> ParseError list" where
  "parse_loop env basePath i [] acc = acc"
| "parse_loop env basePath i (ln # lns) (ds, es) =
     (let lineNo = i + 1
      in if rx_test INCLUDE_DIRECTIVE_REGEX ln then
           (case parseIncludeLine env ln lineNo basePath of
              Some directive \<Rightarrow> parse_loop env basePath (i + 1) lns (ds @ [directive], es)
            | None \<Rightarrow>
                parse_loop env basePath (i + 1) lns
                  (ds, es @ [\<lparr>lineNumber = lineNo, line = ln, message = EMPTY_PATH_MESSAGE\<rparr>]))
         else if rx_test INCOMPLETE_INCLUDE_REGEX ln then
           parse_loop env basePath (i + 1) lns
             (ds, es @ [\<lparr>lineNumber = lineNo, line = ln, message = EMPTY_PATH_MESSAGE\<rparr>])
         else parse_loop env basePath (i + 1) lns (ds, es))"

definition parseIncludeDirectives :: "os_env \<Rightarrow> jsstring \<Rightarrow> jsstring \<Rightarrow> ParseResult" where
  "parseIncludeDirectives env src basePath =
     (let lns = js_split LF src;
          (ds, es) = parse_loop env basePath 0 lns ([], [])
      in \<lparr>originalContent = src, directives = ds, errors = es\<rparr>)"

definition isIncludeDirective :: "jsstring \<Rightarrow> bool" where
  "isIncludeDirective ln = rx_test INCLUDE_DIRECTIVE_REGEX ln"

definition extractIncludePath :: "jsstring \<Rightarrow> jsstring option" where
  "extractIncludePath ln =
     (case rx_exec INCLUDE_DIRECTIVE_REGEX ln of
        None \<Rightarrow> None
      | Some None \<Rightarrow> None
      | Some (Some m1) \<Rightarrow> (let rawPath = js_trim m1 in if rawPath = [] then None else Some rawPath))"

section \<open>The scanner and the state of its patterns\<close>

text \<open>
  The only state the scanner can reach besides its arguments is the \<open>lastIndex\<close> of its
  two pattern objects. \<open>RegExpBuiltinExec\<close> for a pattern \<open>/^r$/\<close>: without the \<open>g\<close>
  and \<open>y\<close> flags the search starts at index 0 and \<open>lastIndex\<close> is not written; with one
  of them it starts at \<open>lastIndex\<close>, where \<open>^\<close> only matches at index 0, and
  \<open>lastIndex\<close> becomes the end of the match, or 0 when there is none.
\<close>

definition RegExpBuiltinExec ::
  "bool \<Rightarrow> bool \<Rightarrow> rx \<Rightarrow> nat \<Rightarrow> jsstring \<Rightarrow> jsstring option option \<times> nat" where
  "RegExpBuiltinExec global sticky r lastIndex s =
     (let start = (if global \<or> sticky then lastIndex else 0)
      in if length s < start \<or> start \<noteq> 0 then
           (None, if global \<or> sticky then 0 else lastIndex)
         else
           (case rx_exec r s of
              None \<Rightarrow> (None, if global \<or> sticky then 0 else lastIndex)
            | Some g \<Rightarrow> (Some g, if global \<or> sticky then length s else lastIndex)))"

record pattern_state =
  includeLastIndex :: nat
  incompleteLastIndex :: nat

text \<open>The two patterns are written without flags.\<close>

definition include_exec :: "pattern_state \<Rightarrow> jsstring \<Rightarrow> jsstring option option \<times> pattern_state" where
  "include_exec st ln =
     (let (m, i) = RegExpBuiltinExec False False INCLUDE_DIRECTIVE_REGEX (includeLastIndex st) ln
      in (m, st\<lparr>includeLastIndex := i\<rparr>))"

definition incomplete_exec :: "pattern_state \<Rightarrow> jsstring \<Rightarrow> jsstring option option \<times> pattern_state" where
  "incomplete_exec st ln =
     (let (m, i) = RegExpBuiltinExec False False INCOMPLETE_INCLUDE_REGEX (incompleteLastIndex st) ln
      in (m, st\<lparr>incompleteLastIndex := i\<rparr>))"

text \<open>The scanner again, with the state of the patterns passed through every use of them.\<close>

definition parseIncludeLine_st ::
  "os_env \<Rightarrow> pattern_state \<Rightarrow> jsstring \<Rightarrow> nat \<Rightarrow> jsstring \<Rightarrow>
   IncludeDirective option \<times> pattern_state" where
  "parseIncludeLine_st env st ln lineNo basePath =
     (let (m, st') = include_exec st ln
      in (case m of
            None \<Rightarrow> None
          | Some None \<Rightarrow> None
          | Some (Some m1) \<Rightarrow>
              (let rawPath = js_trim m1
               in if rawPath = [] then None
                  else Some \<lparr>originalLine = ln, lineNumber = lineNo, rawPath = rawPath,
                             resolvedPath = normalizePath env rawPath basePath\<rparr>),
          st'))"

fun parse_loop_st ::
  "os_env \<Rightarrow> jsstring \<Rightarrow> nat \<Rightarrow> jsstring list \<Rightarrow>
   IncludeDirective list \<times> ParseError list \<Rightarrow> pattern_state \<Rightarrow>
   (IncludeDirective list \<times> ParseError list) \<times> pattern_state" where
  "parse_loop_st env basePath i [] acc st = (acc, st)"
| "parse_loop_st env basePath i (ln # lns) (ds, es) st =
     (let lineNo = i + 1;
          (m, st1) = include_exec st ln
      in if m \<noteq> None then
           (let (directive, st2) = parseIncludeLine_st env st1 ln lineNo basePath
            in case directive of
                 Some d \<Rightarrow> parse_loop_st env basePath (i + 1) lns (ds @ [d], es) st2
               | None \<Rightarrow>
                   parse_loop_st env basePath (i + 1) lns
                     (ds, es @ [\<lparr>lineNumber = lineNo, line = ln, message = EMPTY_PATH_MESSAGE\<rparr>]) st2)
         else
           (let (m', st2) = incomplete_exec st1 ln
            in if m' \<noteq> None then
                 parse_loop_st env basePath (i + 1) lns
                   (ds, es @ [\<lparr>lineNumber = lineNo, line = ln, message = EMPTY_PATH_MESSAGE\<rparr>]) st2
               else parse_loop_st env basePath (i + 1) lns (ds, es) st2))"

definition parseIncludeDirectives_st ::
  "os_env \<Rightarrow> pattern_state \<Rightarrow> jsstring \<Rightarrow> jsstring \<Rightarrow> ParseResult \<times> pattern_state" where
  "parseIncludeDirectives_st env st src basePath =
     (let lns = js_split LF src;
          ((ds, es), st') = parse_loop_st env basePath 0 lns ([], []) st
      in (\<lparr>originalContent = src, directives = ds, errors = es\<rparr>, st'))"

section \<open>The inclusion resolver\<close>

text \<open>
  \<open>path.dirname\<close> (POSIX): the loop goes from the last code unit down to index 1, skips
  trailing separators and stops at the first separator after another code unit; \<open>end\<close>
  is its index.
\<close>

fun dirname_loop :: "jsstring \<Rightarrow> bool \<Rightarrow> nat option" where
  "dirname_loop [] matchedSlash = None"
| "dirname_loop (c # cs) matchedSlash =
     (if c = SLASH then (if \<not> matchedSlash then Some (length cs + 1) else dirname_loop cs matchedSlash)
      else dirname_loop cs False)"

definition path_dirname :: "jsstring \<Rightarrow> jsstring" where
  "path_dirname p =
     (if p = [] then js ''.''
      else
        let hasRoot = (hd p = SLASH)
        in case dirname_loop (rev (tl p)) True of
             None \<Rightarrow> (if hasRoot then js ''/'' else js ''.'')
           | Some e \<Rightarrow> if hasRoot \<and> e = 1 then js ''//'' else take e p)"

text \<open>
  Modelled from the spec: what sections 4.2 and 9 leave to the implementer of the resolver,
  which the source does not contain: the message of a resolve-time error (from its kind and
  the path), the \<open>filePath\<close> of a \<open>parse_error\<close> (the resolver is given the base path
  of the content, not its file), and the text that stands in the output for a directive
  that is not expanded.
\<close>

record policy =
  errorMessage :: "ErrorType \<Rightarrow> jsstring \<Rightarrow> jsstring"
  parseErrorPath :: "jsstring \<Rightarrow> jsstring"
  skipped :: "IncludeDirective \<Rightarrow> jsstring"

text \<open>
  Modelled from the spec: the errors of the resolver, which the source does not contain. A
  scan error is copied with the kind \<open>parse_error\<close> and its line number; an error of a
  directive carries the resolved path of the directive.
\<close>

definition scan_error :: "policy \<Rightarrow> jsstring \<Rightarrow> ParseError \<Rightarrow> ProcessError" where
  "scan_error pol basePath e =
     \<lparr>filePath = parseErrorPath pol basePath, lineNumber = Some (ParseError.lineNumber e),
      message = ParseError.message e, type = parse_error\<rparr>"

definition directive_error :: "policy \<Rightarrow> ErrorType \<Rightarrow> IncludeDirective \<Rightarrow> ProcessError" where
  "directive_error pol k d =
     \<lparr>filePath = resolvedPath d, lineNumber = Some (IncludeDirective.lineNumber d),
      message = errorMessage pol k (resolvedPath d), type = k\<rparr>"

text \<open>
  Modelled from the spec: the output of the resolver, which the source does not contain: the
  lines of the content, with the line of each directive replaced by its text.
\<close>

definition splice_lines :: "jsstring \<Rightarrow> (nat \<times> jsstring) list \<Rightarrow> jsstring" where
  "splice_lines src subs =
     js_join LF (map (\<lambda>(n, ln). case map_of subs n of None \<Rightarrow> ln | Some t \<Rightarrow> t)
                     (enumerate 1 (js_split LF src)))"

text \<open>
  Modelled from the spec: the options of a nested call of the resolver, which the source does
  not contain: the path joins the ancestors and the depth grows by one.
\<close>

definition descend :: "ProcessOptions \<Rightarrow> jsstring \<Rightarrow> ProcessOptions" where
  "descend opts p =
     opts\<lparr>ProcessOptions.includedPaths := insert p (ProcessOptions.includedPaths opts),
          currentDepth := currentDepth opts + 1\<rparr>"

text \<open>
  Modelled from the spec: the inclusion resolver \<open>resolve(content, basePath, options)\<close>
  of section 4.2, of which the source has only the option, result and error types. The
  content is scanned and every scan error is copied as a \<open>parse_error\<close>. Then, for each
  directive in order: at the depth limit a \<open>max_depth\<close> error; else for a path in the
  ancestor set a \<open>circular_include\<close> error; else the file is read, a failure gives
  \<open>file_not_found\<close> or \<open>read_error\<close>, and a content is resolved in turn, from the
  directory of the file, one level deeper and with the path added to the ancestors; the
  path, then the paths and the errors of that result are appended, and its content takes
  the place of the directive's line. Each directive gives its text, its paths and its
  errors.
\<close>

function resolve ::
  "policy \<Rightarrow> os_env \<Rightarrow> jsstring \<Rightarrow> jsstring \<Rightarrow> ProcessOptions \<Rightarrow> ProcessResult" where
  "resolve pol env src basePath opts =
     (let scan = parseIncludeDirectives env src basePath;
          outs = map (\<lambda>d.
                   if maxDepth opts \<le> currentDepth opts then
                     (skipped pol d, [], [directive_error pol max_depth d])
                   else if resolvedPath d \<in> ProcessOptions.includedPaths opts then
                     (skipped pol d, [], [directive_error pol circular_include d])
                   else
                     (case readFile opts (resolvedPath d) of
                        Missing \<Rightarrow> (skipped pol d, [], [directive_error pol file_not_found d])
                      | Failed \<Rightarrow> (skipped pol d, [], [directive_error pol read_error d])
                      | Content body \<Rightarrow>
                          (let sub = resolve pol env body (path_dirname (resolvedPath d))
                                       (descend opts (resolvedPath d))
                           in (ProcessResult.content sub,
                               resolvedPath d # ProcessResult.includedPaths sub,
                               ProcessResult.errors sub))))
                 (directives scan)
      in \<lparr>content = splice_lines src (zip (map IncludeDirective.lineNumber (directives scan)) (map fst outs)),
          includedPaths = concat (map (\<lambda>out. fst (snd out)) outs),
          errors = map (scan_error pol basePath) (ParseResult.errors scan) @
                   concat (map (\<lambda>out. snd (snd out)) outs)\<rparr>)"
  by pat_completeness auto
termination
proof (relation "measure (\<lambda>(pol, env, src, basePath, opts). nat (maxDepth opts - currentDepth opts))")
  show "wf (measure (\<lambda>(pol, env, src, basePath, opts). nat (maxDepth opts - currentDepth opts)))"
    by simp
next
  fix pol :: policy and env :: os_env and src basePath :: jsstring and opts :: ProcessOptions
    and scan d body
  assume "\<not> maxDepth opts \<le> currentDepth opts"
  then show "((pol, env, body, path_dirname (resolvedPath d), descend opts (resolvedPath d)),
              (pol, env, src, basePath, opts))
             \<in> measure (\<lambda>(pol, env, src, basePath, opts). nat (maxDepth opts - currentDepth opts))"
    by (simp add: descend_def)
qed

text \<open>
  Modelled from the spec: the options of a call from outside when only the reader is given:
  no ancestors, depth 0 and the default depth limit.
\<close>

definition default_options :: "(jsstring \<Rightarrow> read_outcome) \<Rightarrow> ProcessOptions" where
  "default_options rf =
     \<lparr>readFile = rf, includedPaths = {}, maxDepth = DEFAULT_MAX_DEPTH, currentDepth = 0\<rparr>"

section \<open>Notions used to state and prove the properties\<close>

text \<open>The successes of a pattern that have consumed the whole input.\<close>

definition final :: "(jsstring option \<times> jsstring) list \<Rightarrow> (jsstring option \<times> jsstring) list" where
  "final ms = filter (\<lambda>m. snd m = []) ms"

text \<open>The rest of a line after its leading whitespace and the keyword, if it starts so.\<close>

definition kw_rest :: "jsstring \<Rightarrow> jsstring option" where
  "kw_rest ln = (let t = dropWhile is_ws ln in if prefix KEYWORD t then Some (drop 8 t) else None)"

text \<open>The match of \<^verbatim>\<open>(.+)$\<close> on the rest of a line.\<close>

definition path_part :: "jsstring \<Rightarrow> (jsstring option \<times> jsstring) list" where
  "path_part u = (if u \<noteq> [] \<and> list_all is_dot u then [(Some u, [])] else [])"

text \<open>
  A line matches the directive pattern \<^verbatim>\<open>^\s*@include\s+(.+)$\<close> with a path that is not
  empty after trimming: whitespace, the keyword, at least one whitespace, and a path
  without line terminator.
\<close>

definition directive_line :: "jsstring \<Rightarrow> bool" where
  "directive_line ln \<longleftrightarrow>
     (\<exists>w1 w2 p. ln = w1 @ KEYWORD @ w2 @ p \<and> list_all is_ws w1 \<and> w2 \<noteq> [] \<and> list_all is_ws w2 \<and>
        p \<noteq> [] \<and> list_all is_dot p \<and> js_trim p \<noteq> [])"

text \<open>A line with the keyword and no path: only whitespace around the keyword.\<close>

definition empty_path_line :: "jsstring \<Rightarrow> bool" where
  "empty_path_line ln \<longleftrightarrow> (\<exists>w1 w2. ln = w1 @ KEYWORD @ w2 \<and> list_all is_ws w1 \<and> list_all is_ws w2)"

text \<open>The error that the scanner pushes for line \<open>n\<close>.\<close>

definition line_error :: "nat \<Rightarrow> jsstring \<Rightarrow> ParseError" where
  "line_error n ln = \<lparr>lineNumber = n, line = ln, message = EMPTY_PATH_MESSAGE\<rparr>"

text \<open>The lines for which the loop pushes an error.\<close>

definition bad_line :: "jsstring \<Rightarrow> bool" where
  "bad_line ln \<longleftrightarrow>
     extractIncludePath ln = None \<and>
     (rx_test INCLUDE_DIRECTIVE_REGEX ln \<or> rx_test INCOMPLETE_INCLUDE_REGEX ln)"

text \<open>A process environment and the document of the example of three lines.\<close>

definition env0 :: os_env where
  "env0 = \<lparr>homedir = js ''/home/user'', cwd = js ''/work''\<rparr>"

definition example_doc :: jsstring where
  "example_doc = js ''@include\<newline>@include   \<newline>@include ./ok.md''"

text \<open>
  A segment of a normal path, and a normalized path: one that \<open>path.normalize\<close> leaves
  as it is.
\<close>

definition clean_seg :: "jsstring \<Rightarrow> bool" where
  "clean_seg s \<longleftrightarrow> s \<noteq> [] \<and> s \<noteq> js ''.'' \<and> s \<noteq> js ''..'' \<and> SLASH \<notin> set s"

definition os_normalized :: "jsstring \<Rightarrow> bool" where
  "os_normalized p \<longleftrightarrow> path_normalize p = p"

text \<open>
  The shapes of a normal absolute path: the root, or the root and segments with single
  separators, with or without a separator at the end.
\<close>

definition abs_of :: "jsstring list \<Rightarrow> bool \<Rightarrow> jsstring" where
  "abs_of q trailing =
     (if q = [] then [SLASH] else SLASH # js_join SLASH q @ (if trailing then [SLASH] else []))"

text \<open>A process whose home directory is absolute but not normalized.\<close>

definition env_bad_home :: os_env where
  "env_bad_home = \<lparr>homedir = js ''/home//user'', cwd = js ''/work''\<rparr>"

text \<open>What the resolver computes for one directive: its text, its paths and its errors.\<close>

definition expand ::
  "policy \<Rightarrow> os_env \<Rightarrow> ProcessOptions \<Rightarrow> IncludeDirective \<Rightarrow>
   jsstring \<times> jsstring list \<times> ProcessError list" where
  "expand pol env opts d =
     (if maxDepth opts \<le> currentDepth opts then
        (skipped pol d, [], [directive_error pol max_depth d])
      else if resolvedPath d \<in> ProcessOptions.includedPaths opts then
        (skipped pol d, [], [directive_error pol circular_include d])
      else
        (case readFile opts (resolvedPath d) of
           Missing \<Rightarrow> (skipped pol d, [], [directive_error pol file_not_found d])
         | Failed \<Rightarrow> (skipped pol d, [], [directive_error pol read_error d])
         | Content body \<Rightarrow>
             (let sub = resolve pol env body (path_dirname (resolvedPath d))
                          (descend opts (resolvedPath d))
              in (ProcessResult.content sub,
                  resolvedPath d # ProcessResult.includedPaths sub,
                  ProcessResult.errors sub))))"

text \<open>
  File \<open>x\<close> includes file \<open>y\<close>: \<open>x\<close> is readable and a directive of its content,
  scanned from the directory of \<open>x\<close>, resolves to \<open>y\<close>.
\<close>

definition file_includes :: "os_env \<Rightarrow> (jsstring \<Rightarrow> read_outcome) \<Rightarrow> jsstring \<Rightarrow> jsstring \<Rightarrow> bool" where
  "file_includes env rf x y \<longleftrightarrow>
     (\<exists>body. rf x = Content body \<and>
        y \<in> resolvedPath ` set (directives (parseIncludeDirectives env body (path_dirname x))))"

text \<open>A \<open>circular_include\<close> error for the path \<open>p\<close>.\<close>

definition circular_for :: "jsstring \<Rightarrow> ProcessError \<Rightarrow> bool" where
  "circular_for p e \<longleftrightarrow> type e = circular_include \<and> filePath e = p"

text \<open>
  Examples: a policy, a file that includes itself, one that does so in two directives, and a
  file without directives.
\<close>

definition example_policy :: policy where
  "example_policy = \<lparr>errorMessage = (\<lambda>k p. []), parseErrorPath = (\<lambda>b. b), skipped = originalLine\<rparr>"

definition self_file :: "jsstring \<Rightarrow> read_outcome" where
  "self_file p = (if p = js ''/f.md'' then Content (js ''@include /f.md'') else Missing)"

definition twice_self_file :: "jsstring \<Rightarrow> read_outcome" where
  "twice_self_file p =
     (if p = js ''/f.md'' then Content (js ''@include /f.md\<newline>@include ./f.md'') else Missing)"

definition leaf_file :: "jsstring \<Rightarrow> read_outcome" where
  "leaf_file p = (if p = js ''/p.md'' then Content (js ''shared text'') else Missing)"

text \<open>
  More examples: a process with another working directory; two files that include each
  other; a file that includes itself and a file without directives; a file that includes a
  file that includes itself; no file at all; a document with two directives for one file.
\<close>

definition env_other_cwd :: os_env where
  "env_other_cwd = \<lparr>homedir = js ''/home/user'', cwd = js ''/elsewhere''\<rparr>"

definition mutual_file :: "jsstring \<Rightarrow> read_outcome" where
  "mutual_file p =
     (if p = js ''/f.md'' then Content (js ''@include /f.md\<newline>@include /g.md'')
      else if p = js ''/g.md'' then Content (js ''@include /f.md'') else Missing)"

definition with_leaf_file :: "jsstring \<Rightarrow> read_outcome" where
  "with_leaf_file p =
     (if p = js ''/f.md'' then Content (js ''@include /f.md\<newline>@include /g.md'')
      else if p = js ''/g.md'' then Content (js ''notes'') else Missing)"

definition chain_file :: "jsstring \<Rightarrow> read_outcome" where
  "chain_file p =
     (if p = js ''/p.md'' then Content (js ''@include /q.md'')
      else if p = js ''/q.md'' then Content (js ''@include /q.md'') else Missing)"

definition no_file :: "jsstring \<Rightarrow> read_outcome" where
  "no_file p = Missing"

definition diamond_doc :: jsstring where
  "diamond_doc = js ''@include /p.md\<newline>@include ./p.md''"

section \<open>The patterns\<close>

lemma js_Nil [simp]: "js [] = []" by (simp add: js_def)

lemma js_Cons: "js (c # s) = of_nat (of_char c) # js s" by (simp add: js_def)

lemma at_not_ws: "\<not> is_ws 0x40"
  by (simp add: is_ws_def is_white_space_def is_line_terminator_def)

lemma KEYWORD_eq: "KEYWORD = 0x40 # js ''include''"
  by (simp add: KEYWORD_def js_def)

lemma length_KEYWORD [simp]: "length KEYWORD = 8"
  by (simp add: KEYWORD_def js_def)

lemma prefix_KEYWORD_hd: "prefix KEYWORD t \<Longrightarrow> t \<noteq> [] \<and> \<not> is_ws (hd t)"
  by (cases t) (auto simp: KEYWORD_eq at_not_ws)

lemma merge_None:
  "(case fst n of None \<Rightarrow> fst (None :: jsstring option, x :: jsstring) | Some g \<Rightarrow> Some g, snd n) = (n :: jsstring option \<times> jsstring)"
  by (cases n) (auto split: option.splits)

lemma concat_greedy:
  assumes "\<And>t. t \<noteq> [] \<Longrightarrow> p (hd t) \<Longrightarrow> f t = []"
  shows "concat (map f (greedy p s)) = f (dropWhile p s)"
  using assms by (induction s) auto

lemma in_greedy_iff: "u \<in> set (greedy p s) \<longleftrightarrow> (\<exists>w. s = w @ u \<and> list_all p w)"
proof (induction s)
  case Nil
  then show ?case by auto
next
  case (Cons c cs)
  show ?case
  proof (cases "p c")
    case True
    have "(\<exists>w. c # cs = w @ u \<and> list_all p w) \<longleftrightarrow> (u = c # cs \<or> (\<exists>w. cs = w @ u \<and> list_all p w))"
      using True by (auto simp: Cons_eq_append_conv)
    with Cons True show ?thesis by auto
  next
    case False
    have "(\<exists>w. c # cs = w @ u \<and> list_all p w) \<longleftrightarrow> u = c # cs"
      using False by (auto simp: Cons_eq_append_conv)
    with False show ?thesis by auto
  qed
qed

lemma filter_Nil_greedy:
  "filter (\<lambda>v. v = []) (greedy p s) = (if list_all p s then [[]] else [])"
  by (induction s) auto

lemma rx_run_seq_star: "rx_run (Seq (Star p) b) s = concat (map (rx_run b) (greedy p s))"
  by (simp add: comp_def merge_None split: list.splits)

lemma rx_run_seq_lit:
  "rx_run (Seq (Lit w) b) s = (if prefix w s then rx_run b (drop (length w) s) else [])"
  by (simp add: comp_def merge_None split: list.splits)

lemma rx_run_seq_plus:
  "rx_run (Seq (Plus p) b) s =
     (case s of [] \<Rightarrow> [] | c # cs \<Rightarrow> if p c then concat (map (rx_run b) (greedy p cs)) else [])"
  by (simp add: comp_def merge_None split: list.splits)

lemma final_group_plus:
  "final (rx_run (Group (Plus p)) u) = (if u \<noteq> [] \<and> list_all p u then [(Some u, [])] else [])"
proof (cases u)
  case Nil
  then show ?thesis by (simp add: final_def)
next
  case (Cons d ds)
  have "filter (\<lambda>m. snd m = []) (map (\<lambda>v. (Some (take (length u - length v) u), v)) (greedy p ds))
        = map (\<lambda>v. (Some (take (length u - length v) u), v)) (filter (\<lambda>v. v = []) (greedy p ds))"
    by (simp add: filter_map comp_def)
  then show ?thesis using Cons
    by (simp add: final_def filter_Nil_greedy comp_def)
qed

declare rx_run.simps [simp del]

lemma kw_rest_SomeD: "kw_rest ln = Some r \<Longrightarrow> ln = takeWhile is_ws ln @ KEYWORD @ r"
proof -
  assume "kw_rest ln = Some r"
  then have p: "prefix KEYWORD (dropWhile is_ws ln)" and r: "r = drop 8 (dropWhile is_ws ln)"
    by (auto simp: kw_rest_def Let_def split: if_splits)
  from p obtain z where z: "dropWhile is_ws ln = KEYWORD @ z" by (auto simp: prefix_def)
  with r have "r = z" by simp
  with z have "takeWhile is_ws ln @ KEYWORD @ r = takeWhile is_ws ln @ dropWhile is_ws ln" by simp
  then show ?thesis by simp
qed

lemma dropWhile_KEYWORD: "dropWhile is_ws (KEYWORD @ r) = KEYWORD @ r"
  by (simp add: KEYWORD_eq at_not_ws)

lemma kw_rest_append: "list_all is_ws w \<Longrightarrow> kw_rest (w @ KEYWORD @ r) = Some r"
proof -
  assume "list_all is_ws w"
  then have "dropWhile is_ws (w @ KEYWORD @ r) = KEYWORD @ r"
    by (simp add: dropWhile_append2 list_all_iff dropWhile_KEYWORD)
  then show ?thesis by (simp add: kw_rest_def)
qed

lemma rx_run_after_keyword:
  "rx_run (Seq (Star is_ws) (Seq (Lit KEYWORD) b)) ln =
     (case kw_rest ln of None \<Rightarrow> [] | Some r \<Rightarrow> rx_run b r)"
proof -
  have "concat (map (rx_run (Seq (Lit KEYWORD) b)) (greedy is_ws ln))
        = rx_run (Seq (Lit KEYWORD) b) (dropWhile is_ws ln)"
    by (rule concat_greedy) (auto simp: rx_run_seq_lit dest: prefix_KEYWORD_hd)
  then show ?thesis
    by (simp add: rx_run_seq_star rx_run_seq_lit kw_rest_def)
qed

lemma incomplete_test:
  "rx_test INCOMPLETE_INCLUDE_REGEX ln \<longleftrightarrow> (\<exists>r. kw_rest ln = Some r \<and> list_all is_ws r)"
proof (cases "kw_rest ln")
  case None
  then show ?thesis
    by (simp add: rx_test_def rx_exec_def INCOMPLETE_INCLUDE_REGEX_def rx_run_after_keyword)
next
  case (Some r)
  have "filter (\<lambda>m. snd m = []) (map (Pair None) (greedy is_ws r))
        = map (Pair (None :: jsstring option)) (filter (\<lambda>v. v = []) (greedy is_ws r))"
    by (simp add: filter_map comp_def)
  with Some show ?thesis
    by (simp add: rx_test_def rx_exec_def INCOMPLETE_INCLUDE_REGEX_def rx_run_after_keyword
        filter_Nil_greedy rx_run.simps(2))
qed

lemma final_include:
  "final (rx_run INCLUDE_DIRECTIVE_REGEX ln) =
     (case kw_rest ln of
        None \<Rightarrow> []
      | Some r \<Rightarrow>
          (case r of
             [] \<Rightarrow> []
           | c # cs \<Rightarrow> if is_ws c then concat (map path_part (greedy is_ws cs)) else []))"
proof -
  have "\<And>us. final (concat (map (rx_run (Group (Plus is_dot))) us)) = concat (map path_part us)"
    by (simp add: final_def filter_concat comp_def path_part_def [abs_def]
        final_group_plus [unfolded final_def])
  then show ?thesis
    unfolding INCLUDE_DIRECTIVE_REGEX_def rx_run_after_keyword rx_run_seq_plus
    by (auto simp: final_def split: option.splits list.splits)
qed

lemma rx_exec_final: "rx_exec r s = (case final (rx_run r s) of [] \<Rightarrow> None | m # _ \<Rightarrow> Some (fst m))"
  by (simp add: rx_exec_def final_def)

lemma include_exec_SomeD:
  assumes "rx_exec INCLUDE_DIRECTIVE_REGEX ln = Some g"
  shows "\<exists>c w m. kw_rest ln = Some (c # w @ m) \<and> is_ws c \<and> list_all is_ws w \<and>
           m \<noteq> [] \<and> list_all is_dot m \<and> g = Some m"
proof -
  from assms obtain x xs where x: "final (rx_run INCLUDE_DIRECTIVE_REGEX ln) = x # xs" and g: "g = fst x"
    by (auto simp: rx_exec_final split: list.splits)
  then obtain c cs where r: "kw_rest ln = Some (c # cs)" and c: "is_ws c"
    and cat: "concat (map path_part (greedy is_ws cs)) = x # xs"
    by (auto simp: final_include split: option.splits list.splits if_splits)
  have "x \<in> set (concat (map path_part (greedy is_ws cs)))" by (simp add: cat)
  then obtain u where u: "u \<in> set (greedy is_ws cs)" and xu: "x \<in> set (path_part u)" by auto
  from u obtain w where w: "cs = w @ u" "list_all is_ws w" by (auto simp: in_greedy_iff)
  from xu have "u \<noteq> []" "list_all is_dot u" "x = (Some u, [])"
    by (auto simp: path_part_def split: if_splits)
  with r c w g show ?thesis by auto
qed

lemma include_regex_group: "rx_exec INCLUDE_DIRECTIVE_REGEX ln \<noteq> Some None"
  using include_exec_SomeD [of ln None] by auto

lemma include_exec_SomeI:
  assumes "kw_rest ln = Some (c # w @ m)" "is_ws c" "list_all is_ws w" "m \<noteq> []" "list_all is_dot m"
  shows "rx_exec INCLUDE_DIRECTIVE_REGEX ln \<noteq> None"
proof -
  have "m \<in> set (greedy is_ws (w @ m))" using assms(3) by (auto simp: in_greedy_iff)
  moreover have "(Some m, []) \<in> set (path_part m)" using assms(4,5) by (simp add: path_part_def)
  ultimately have "(Some m, []) \<in> set (concat (map path_part (greedy is_ws (w @ m))))"
    by auto
  then have "concat (map path_part (greedy is_ws (w @ m))) \<noteq> []" by force
  with assms(1,2) show ?thesis
    by (simp add: rx_exec_final final_include split: list.splits)
qed

section \<open>Trimming and the path of a line\<close>

lemma js_trim_ws_prefix: "list_all is_ws w \<Longrightarrow> js_trim (w @ m) = js_trim m"
  by (simp add: js_trim_def dropWhile_append2 list_all_iff)

lemma dropWhile_Nil_iff: "dropWhile P xs = [] \<longleftrightarrow> list_all P xs"
  by (induction xs) auto

lemma js_trim_Nil_iff: "js_trim s = [] \<longleftrightarrow> dropWhile is_ws s = []"
proof -
  have "js_trim s = [] \<longleftrightarrow> list_all is_ws (dropWhile is_ws s)"
    by (simp add: js_trim_def dropWhile_Nil_iff list_all_iff)
  also have "\<dots> \<longleftrightarrow> dropWhile is_ws s = []"
    using hd_dropWhile [of is_ws s] by (cases "dropWhile is_ws s") (auto simp del: dropWhile_eq_Nil_conv)
  finally show ?thesis .
qed

lemma js_trim_ends:
  assumes "js_trim s \<noteq> []"
  shows "\<not> is_ws (hd (js_trim s))" and "\<not> is_ws (last (js_trim s))"
proof -
  let ?d = "dropWhile is_ws s"
  let ?e = "dropWhile is_ws (rev ?d)"
  have e: "?e \<noteq> []" using assms by (simp add: js_trim_def)
  then have "\<not> is_ws (hd ?e)" by (rule hd_dropWhile)
  then show "\<not> is_ws (last (js_trim s))" using e by (simp add: js_trim_def last_rev)
  have d: "?d \<noteq> []" using assms by (simp add: js_trim_Nil_iff)
  then have hd: "\<not> is_ws (hd ?d)" by (rule hd_dropWhile)
  have "rev ?d = takeWhile is_ws (rev ?d) @ ?e" by simp
  then have "?d = rev ?e @ rev (takeWhile is_ws (rev ?d))"
    by (metis rev_append rev_rev_ident)
  then have "hd ?d = hd (rev ?e)" using e by (metis hd_append2 rev_is_Nil_conv)
  with hd show "\<not> is_ws (hd (js_trim s))" by (simp add: js_trim_def)
qed

lemma dropWhile_hd_id: "xs \<noteq> [] \<Longrightarrow> \<not> P (hd xs) \<Longrightarrow> dropWhile P xs = xs"
  by (cases xs) auto

lemma js_trim_Nil [simp]: "js_trim [] = []"
  by (simp add: js_trim_def)

lemma js_trim_idem: "js_trim (js_trim s) = js_trim s"
proof (cases "js_trim s = []")
  case True
  then show ?thesis by simp
next
  case False
  let ?t = "js_trim s"
  have 1: "dropWhile is_ws ?t = ?t"
    using False js_trim_ends(1) [OF False] by (rule dropWhile_hd_id)
  have "rev ?t \<noteq> []" using False by simp
  moreover have "\<not> is_ws (hd (rev ?t))" using False js_trim_ends(2) [OF False] by (simp add: hd_rev)
  ultimately have 2: "dropWhile is_ws (rev ?t) = rev ?t"
    by (rule dropWhile_hd_id)
  show ?thesis
    unfolding js_trim_def [of "js_trim s"] 1 2 by simp
qed

lemma extractIncludePath_eq:
  "extractIncludePath ln =
     (case kw_rest ln of
        None \<Rightarrow> None
      | Some r \<Rightarrow>
          if r \<noteq> [] \<and> is_ws (hd r) \<and> dropWhile is_ws r \<noteq> [] \<and> list_all is_dot (dropWhile is_ws r)
          then Some (js_trim r) else None)"
proof (cases "rx_exec INCLUDE_DIRECTIVE_REGEX ln")
  case None
  have "\<not> (r \<noteq> [] \<and> is_ws (hd r) \<and> dropWhile is_ws r \<noteq> [] \<and> list_all is_dot (dropWhile is_ws r))"
    if r: "kw_rest ln = Some r" for r
  proof
    assume a: "r \<noteq> [] \<and> is_ws (hd r) \<and> dropWhile is_ws r \<noteq> [] \<and> list_all is_dot (dropWhile is_ws r)"
    then obtain c cs where rc: "r = c # cs" "is_ws c" by (cases r) auto
    then have dw: "dropWhile is_ws r = dropWhile is_ws cs" by simp
    have "cs = takeWhile is_ws cs @ dropWhile is_ws cs" by simp
    moreover have "list_all is_ws (takeWhile is_ws cs)"
      by (auto simp: list_all_iff dest: set_takeWhileD)
    ultimately have "rx_exec INCLUDE_DIRECTIVE_REGEX ln \<noteq> None"
      using include_exec_SomeI [of ln c "takeWhile is_ws cs" "dropWhile is_ws cs"] r rc a dw
      by simp
    with None show False by simp
  qed
  with None show ?thesis
    by (auto simp: extractIncludePath_def split: option.splits)
next
  case (Some g)
  from include_exec_SomeD [OF Some] obtain c w m where
    r: "kw_rest ln = Some (c # w @ m)" and c: "is_ws c" and w: "list_all is_ws w"
    and m: "m \<noteq> []" "list_all is_dot m" and g: "g = Some m" by blast
  have dw: "dropWhile is_ws (c # w @ m) = dropWhile is_ws m"
    using c w by (simp add: dropWhile_append2 list_all_iff)
  have tr: "js_trim (c # w @ m) = js_trim m"
    using js_trim_ws_prefix [of "c # w" m] c w by simp
  have "set (dropWhile is_ws m) \<subseteq> set m" by (rule set_dropWhileD [THEN subsetI])
  then have dots: "list_all is_dot (dropWhile is_ws m)" using m(2) by (auto simp: list_all_iff)
  show ?thesis
    using Some g r c dw tr dots
    by (simp add: extractIncludePath_def Let_def js_trim_Nil_iff del: dropWhile_eq_Nil_conv dropWhile.simps)
qed

lemma parseIncludeLine_eq:
  "parseIncludeLine env ln n basePath =
     map_option (\<lambda>p. \<lparr>originalLine = ln, lineNumber = n, rawPath = p,
                      resolvedPath = normalizePath env p basePath\<rparr>) (extractIncludePath ln)"
  by (simp add: parseIncludeLine_def extractIncludePath_def Let_def split: option.splits)


section \<open>The scanning loop\<close>

lemma list_all_takeWhile: "list_all P (takeWhile P xs)"
  by (auto simp: list_all_iff dest: set_takeWhileD)

lemma list_all_dropWhile: "list_all Q xs \<Longrightarrow> list_all Q (dropWhile P xs)"
  by (auto simp: list_all_iff dest: set_dropWhileD)

lemma directive_line_iff: "directive_line ln \<longleftrightarrow> extractIncludePath ln \<noteq> None"
proof
  assume "directive_line ln"
  then obtain w1 w2 p where ln: "ln = w1 @ KEYWORD @ w2 @ p" and w1: "list_all is_ws w1"
    and w2: "w2 \<noteq> []" "list_all is_ws w2" and p: "p \<noteq> []" "list_all is_dot p" "js_trim p \<noteq> []"
    by (auto simp: directive_line_def)
  have r: "kw_rest ln = Some (w2 @ p)" unfolding ln using w1 by (rule kw_rest_append)
  have hd: "is_ws (hd (w2 @ p))" using w2 by (cases w2) auto
  have dw: "dropWhile is_ws (w2 @ p) = dropWhile is_ws p"
    using w2(2) by (simp add: dropWhile_append2 list_all_iff)
  have "dropWhile is_ws p \<noteq> []" using p(3) by (simp add: js_trim_Nil_iff)
  moreover have "list_all is_dot (dropWhile is_ws p)" using p(2) by (rule list_all_dropWhile)
  ultimately show "extractIncludePath ln \<noteq> None"
    using r hd dw w2(1) by (simp add: extractIncludePath_eq del: dropWhile_eq_Nil_conv)
next
  assume "extractIncludePath ln \<noteq> None"
  then obtain r where r: "kw_rest ln = Some r" and r0: "r \<noteq> []" and hd: "is_ws (hd r)"
    and d: "dropWhile is_ws r \<noteq> []" "list_all is_dot (dropWhile is_ws r)"
    by (auto simp: extractIncludePath_eq split: option.splits if_splits simp del: dropWhile_eq_Nil_conv)
  let ?d = "dropWhile is_ws r"
  have "\<not> is_ws (hd ?d)" using d(1) by (rule hd_dropWhile)
  then have "dropWhile is_ws ?d = ?d" using d(1) by (intro dropWhile_hd_id)
  then have tr: "js_trim ?d \<noteq> []" using d(1) by (simp add: js_trim_Nil_iff del: dropWhile_eq_Nil_conv)
  have tw: "takeWhile is_ws r \<noteq> []" using r0 hd by (cases r) auto
  have "ln = takeWhile is_ws ln @ KEYWORD @ takeWhile is_ws r @ ?d"
    using kw_rest_SomeD [OF r] by simp
  then show "directive_line ln"
    unfolding directive_line_def using tw d tr list_all_takeWhile [of is_ws] by blast
qed

lemma empty_path_line_bad: "empty_path_line ln \<Longrightarrow> bad_line ln"
proof -
  assume "empty_path_line ln"
  then obtain w1 w2 where ln: "ln = w1 @ KEYWORD @ w2" and w: "list_all is_ws w1" "list_all is_ws w2"
    by (auto simp: empty_path_line_def)
  have r: "kw_rest ln = Some w2" unfolding ln using w(1) by (rule kw_rest_append)
  have "dropWhile is_ws w2 = []" using w(2) by (simp add: list_all_iff)
  with r have "extractIncludePath ln = None" by (simp add: extractIncludePath_eq)
  moreover have "rx_test INCOMPLETE_INCLUDE_REGEX ln" using r w(2) by (simp add: incomplete_test)
  ultimately show ?thesis by (simp add: bad_line_def)
qed

lemma parseIncludeLine_None_iff:
  "parseIncludeLine env ln n basePath = None \<longleftrightarrow> extractIncludePath ln = None"
  by (simp add: parseIncludeLine_eq)

lemma not_test_extract: "\<not> rx_test INCLUDE_DIRECTIVE_REGEX ln \<Longrightarrow> extractIncludePath ln = None"
  by (simp add: rx_test_def extractIncludePath_def)

lemma extract_test: "extractIncludePath ln = Some p \<Longrightarrow> rx_test INCLUDE_DIRECTIVE_REGEX ln"
  using not_test_extract [of ln] by auto

lemma parse_loop_eq:
  "parse_loop env basePath i lns (ds, es) =
     (ds @ List.map_filter (\<lambda>(n, ln). parseIncludeLine env ln n basePath) (enumerate (Suc i) lns),
      es @ map (\<lambda>(n, ln). line_error n ln) (filter (\<lambda>(n, ln). bad_line ln) (enumerate (Suc i) lns)))"
proof (induction lns arbitrary: i ds es)
  case Nil
  then show ?case by (simp add: List.map_filter_simps)
next
  case (Cons ln lns)
  show ?case
  proof (cases "extractIncludePath ln")
    case (Some p)
    then show ?thesis
      using extract_test [OF Some]
      by (simp add: Cons.IH List.map_filter_simps parseIncludeLine_eq bad_line_def)
  next
    case None
    then show ?thesis
      by (simp add: Cons.IH List.map_filter_simps parseIncludeLine_eq bad_line_def line_error_def)
  qed
qed

lemma scan_directives:
  "directives (parseIncludeDirectives env src basePath) =
     List.map_filter (\<lambda>(n, ln). parseIncludeLine env ln n basePath) (enumerate 1 (js_split LF src))"
  by (simp add: parseIncludeDirectives_def parse_loop_eq Let_def)

lemma scan_errors:
  "errors (parseIncludeDirectives env src basePath) =
     map (\<lambda>(n, ln). line_error n ln) (filter (\<lambda>(n, ln). bad_line ln) (enumerate 1 (js_split LF src)))"
  by (simp add: parseIncludeDirectives_def parse_loop_eq Let_def)

lemma map_filter_lines:
  "map (\<lambda>d. (IncludeDirective.lineNumber d, originalLine d))
     (List.map_filter (\<lambda>(n, ln). parseIncludeLine env ln n basePath) xs) =
   filter (\<lambda>(n, ln). directive_line ln) xs"
proof (induction xs)
  case Nil
  then show ?case by (simp add: List.map_filter_simps)
next
  case (Cons x xs)
  obtain n ln where x: "x = (n, ln)" by (cases x)
  show ?case
    using Cons.IH unfolding x
    by (cases "extractIncludePath ln")
      (simp_all add: List.map_filter_simps parseIncludeLine_eq directive_line_iff)
qed

lemma map_snd_filter_enumerate:
  "map snd (filter (\<lambda>(n, x). P x) (enumerate i xs)) = filter P xs"
  by (induction xs arbitrary: i) auto

lemma sorted_fst_filter_enumerate:
  "sorted_wrt (<) (map fst (filter Q (enumerate i xs)))"
proof -
  have "sorted_wrt (<) (map fst (enumerate i xs))" by (simp add: map_fst_enumerate)
  then show ?thesis
    by (induction xs arbitrary: i) (auto simp: enumerate_simps dest: in_set_enumerate_eq [THEN iffD1])
qed

lemmas scan_eval =
  parse_loop.simps parseIncludeLine_def rx_test_def rx_exec_def
  INCLUDE_DIRECTIVE_REGEX_def INCOMPLETE_INCLUDE_REGEX_def KEYWORD_def js_def LF_def
  is_ws_def is_white_space_def is_line_terminator_def is_dot_def js_trim_def rx_run.simps
  isIncludeDirective_def extractIncludePath_def Let_def

text \<open>
  Claim C3. The directives of a scan are, in document order, exactly the lines of the
  content (split at line feeds) that match the directive pattern with a path that is not
  empty after trimming, each with its 1-indexed line number: there are as many directives
  as such lines, and the line numbers increase strictly.
\<close>

theorem scan_directives_in_line_order:
  "let lns = js_split LF src;
       ds = directives (parseIncludeDirectives env src basePath)
   in length ds = length (filter directive_line lns) \<and>
      map (\<lambda>d. (IncludeDirective.lineNumber d, originalLine d)) ds =
        filter (\<lambda>(n, ln). directive_line ln) (enumerate 1 lns) \<and>
      map originalLine ds = filter directive_line lns \<and>
      sorted_wrt (<) (map IncludeDirective.lineNumber ds)"
proof -
  let ?lns = "js_split LF src"
  let ?ds = "directives (parseIncludeDirectives env src basePath)"
  have 1: "map (\<lambda>d. (IncludeDirective.lineNumber d, originalLine d)) ?ds =
        filter (\<lambda>(n, ln). directive_line ln) (enumerate 1 ?lns)"
    by (simp only: scan_directives map_filter_lines)
  have "map snd (map (\<lambda>d. (IncludeDirective.lineNumber d, originalLine d)) ?ds) = filter directive_line ?lns"
    unfolding 1 by (rule map_snd_filter_enumerate)
  then have 2: "map originalLine ?ds = filter directive_line ?lns" by (simp add: comp_def)
  have "length (map originalLine ?ds) = length (filter directive_line ?lns)" by (simp only: 2)
  then have 3: "length ?ds = length (filter directive_line ?lns)" by simp
  have "sorted_wrt (<) (map fst (map (\<lambda>d. (IncludeDirective.lineNumber d, originalLine d)) ?ds))"
    unfolding 1 by (rule sorted_fst_filter_enumerate)
  then have 4: "sorted_wrt (<) (map IncludeDirective.lineNumber ?ds)" by (simp add: comp_def)
  from 1 2 3 4 show ?thesis by (simp only: Let_def) 
qed

lemma count_loop:
  "parse_loop env basePath i lns (ds, es) = (ds', es') \<Longrightarrow>
   length (filter (\<lambda>d. IncludeDirective.lineNumber d = n) ds') +
   length (filter (\<lambda>e. ParseError.lineNumber e = n) es')
   \<le> length (filter (\<lambda>d. IncludeDirective.lineNumber d = n) ds) +
     length (filter (\<lambda>e. ParseError.lineNumber e = n) es) +
     (if i < n \<and> n \<le> i + length lns then 1 else 0)"
proof (induction lns arbitrary: i ds es)
  case Nil
  then show ?case by simp
next
  case (Cons ln lns)
  show ?case
  proof (cases "rx_test INCLUDE_DIRECTIVE_REGEX ln")
    case True
    show ?thesis
    proof (cases "parseIncludeLine env ln (Suc i) basePath")
      case None
      with True Cons.prems have
        "parse_loop env basePath (Suc i) lns (ds, es @ [\<lparr>lineNumber = Suc i, line = ln, message = EMPTY_PATH_MESSAGE\<rparr>]) = (ds', es')"
        by simp
      from Cons.IH [OF this] show ?thesis by (auto split: if_splits)
    next
      case (Some d)
      then have n: "IncludeDirective.lineNumber d = Suc i"
        by (auto simp: parseIncludeLine_eq)
      from Some True Cons.prems have
        "parse_loop env basePath (Suc i) lns (ds @ [d], es) = (ds', es')"
        by simp
      from Cons.IH [OF this] n show ?thesis by (auto split: if_splits)
    qed
  next
    case False
    show ?thesis
    proof (cases "rx_test INCOMPLETE_INCLUDE_REGEX ln")
      case True
      with False Cons.prems have
        "parse_loop env basePath (Suc i) lns (ds, es @ [\<lparr>lineNumber = Suc i, line = ln, message = EMPTY_PATH_MESSAGE\<rparr>]) = (ds', es')"
        by simp
      from Cons.IH [OF this] show ?thesis by (auto split: if_splits)
    next
      case F2: False
      with False Cons.prems have "parse_loop env basePath (Suc i) lns (ds, es) = (ds', es')"
        by simp
      from Cons.IH [OF this] show ?thesis by (auto split: if_splits)
    qed
  qed
qed

lemma scan_count:
  "length (filter (\<lambda>d. IncludeDirective.lineNumber d = n)
             (directives (parseIncludeDirectives env src basePath))) +
   length (filter (\<lambda>e. ParseError.lineNumber e = n)
             (errors (parseIncludeDirectives env src basePath))) \<le> 1"
proof -
  obtain ds es where l: "parse_loop env basePath 0 (js_split LF src) ([], []) = (ds, es)"
    by (cases "parse_loop env basePath 0 (js_split LF src) ([], [])")
  then have r: "directives (parseIncludeDirectives env src basePath) = ds"
    "errors (parseIncludeDirectives env src basePath) = es"
    by (simp_all add: parseIncludeDirectives_def Let_def)
  show ?thesis unfolding r using count_loop [OF l, of n] by (simp split: if_splits)
qed

lemma scan_disjoint:
  assumes "d \<in> set (directives (parseIncludeDirectives env src basePath))"
    and "e \<in> set (errors (parseIncludeDirectives env src basePath))"
  shows "IncludeDirective.lineNumber d \<noteq> ParseError.lineNumber e"
proof
  assume eq: "IncludeDirective.lineNumber d = ParseError.lineNumber e"
  let ?n = "IncludeDirective.lineNumber d"
  let ?ds = "directives (parseIncludeDirectives env src basePath)"
  let ?es = "errors (parseIncludeDirectives env src basePath)"
  have "filter (\<lambda>d. IncludeDirective.lineNumber d = ?n) ?ds \<noteq> []"
    using assms(1) by (auto simp: filter_empty_conv)
  then have "0 < length (filter (\<lambda>d. IncludeDirective.lineNumber d = ?n) ?ds)" by simp
  moreover have "filter (\<lambda>e. ParseError.lineNumber e = ?n) ?es \<noteq> []"
    using assms(2) eq by (auto simp: filter_empty_conv)
  then have "0 < length (filter (\<lambda>e. ParseError.lineNumber e = ?n) ?es)" by simp
  ultimately show False using scan_count [of ?n env src basePath] by linarith
qed

text \<open>
  Claim C7. In one scan, every line number stands for at most one entry of the directives
  and the errors together: a line gives a directive, an error or nothing, and no line
  number occurs both among the directives and among the errors.
\<close>

theorem scan_line_at_most_one:
  "let r = parseIncludeDirectives env src basePath
   in (\<forall>n. length (filter (\<lambda>d. IncludeDirective.lineNumber d = n) (directives r)) +
            length (filter (\<lambda>e. ParseError.lineNumber e = n) (errors r)) \<le> 1) \<and>
      set (map IncludeDirective.lineNumber (directives r)) \<inter>
      set (map ParseError.lineNumber (errors r)) = {}"
proof -
  let ?r = "parseIncludeDirectives env src basePath"
  have "set (map IncludeDirective.lineNumber (directives ?r)) \<inter>
      set (map ParseError.lineNumber (errors ?r)) = {}"
    using scan_disjoint [of _ env src basePath] by fastforce
  then show ?thesis using scan_count [of _ env src basePath] by (simp add: Let_def)
qed

text \<open>
  Claim C10. \<open>parseIncludeLine\<close> gives a directive exactly when
  \<open>extractIncludePath\<close> gives a path, the directive's \<open>rawPath\<close> is that path, and
  the path is the trimmed rest of the line after the leading whitespace and the keyword.
\<close>

theorem parseIncludeLine_extractIncludePath:
  "(parseIncludeLine env ln n basePath \<noteq> None \<longleftrightarrow> extractIncludePath ln \<noteq> None) \<and>
   map_option rawPath (parseIncludeLine env ln n basePath) = extractIncludePath ln \<and>
   (case extractIncludePath ln of
      None \<Rightarrow> True
    | Some p \<Rightarrow> \<exists>w r. ln = w @ KEYWORD @ r \<and> list_all is_ws w \<and> p = js_trim r)"
proof -
  have 1: "map_option rawPath (parseIncludeLine env ln n basePath) = extractIncludePath ln"
    by (simp add: parseIncludeLine_eq option.map_comp comp_def option.map_ident)
  have 3: "\<exists>w r. ln = w @ KEYWORD @ r \<and> list_all is_ws w \<and> p = js_trim r"
    if "extractIncludePath ln = Some p" for p
  proof -
    from that obtain r where r: "kw_rest ln = Some r" and p: "p = js_trim r"
      by (auto simp: extractIncludePath_eq split: option.splits if_splits)
    from kw_rest_SomeD [OF r] p list_all_takeWhile [of is_ws ln] show ?thesis by blast
  qed
  show ?thesis using 1 3 by (auto simp: parseIncludeLine_eq split: option.splits)
qed




lemma directive_of_line:
  assumes "d \<in> set (directives (parseIncludeDirectives env src basePath))"
  shows "\<exists>n ln. (n, ln) \<in> set (enumerate 1 (js_split LF src)) \<and>
           parseIncludeLine env ln n basePath = Some d"
proof -
  from assms obtain x where x: "x \<in> set (enumerate 1 (js_split LF src))"
    and d: "(case x of (n, ln) \<Rightarrow> parseIncludeLine env ln n basePath) = Some d"
    unfolding scan_directives List.map_filter_def by auto
  obtain n ln where "x = (n, ln)" by (cases x)
  with x d show ?thesis by auto
qed



lemma example_scan:
  "parseIncludeDirectives env example_doc basePath =
     \<lparr>originalContent = example_doc,
      directives = [\<lparr>originalLine = js ''@include ./ok.md'', lineNumber = 3, rawPath = js ''./ok.md'',
                     resolvedPath = normalizePath env (js ''./ok.md'') basePath\<rparr>],
      errors = [line_error 1 (js ''@include''), line_error 2 (js ''@include   '')]\<rparr>"
  by (simp add: parseIncludeDirectives_def example_doc_def line_error_def scan_eval)

text \<open>
  Claim C4, amended. A line of the content that consists of optional whitespace, the
  keyword and then nothing or only whitespace gives a \<open>ParseError\<close> for its line number
  and no directive; the message of that error is
  "Invalid @include directive: path cannot be empty", which ends with "path cannot be
  empty". The example of three lines gives two errors, on lines 1 and 2, and one directive,
  on line 3.
\<close>

theorem empty_path_lines_are_errors:
  "(let lns = js_split LF src; r = parseIncludeDirectives env src basePath
    in \<forall>i. i < length lns \<and> empty_path_line (lns ! i) \<longrightarrow>
         line_error (Suc i) (lns ! i) \<in> set (errors r) \<and>
         (\<forall>d \<in> set (directives r). IncludeDirective.lineNumber d \<noteq> Suc i)) \<and>
   ParseError.lineNumber (line_error n ln) = n \<and> line (line_error n ln) = ln \<and>
   message (line_error n ln) = js ''Invalid @include directive: path cannot be empty'' \<and>
   suffix (js ''path cannot be empty'') (message (line_error n ln)) \<and>
   errors (parseIncludeDirectives env example_doc basePath) =
     [line_error 1 (js ''@include''), line_error 2 (js ''@include   '')] \<and>
   map IncludeDirective.lineNumber (directives (parseIncludeDirectives env example_doc basePath)) = [3] \<and>
   map rawPath (directives (parseIncludeDirectives env example_doc basePath)) = [js ''./ok.md'']"
proof -
  let ?lns = "js_split LF src"
  let ?r = "parseIncludeDirectives env src basePath"
  have 1: "line_error (Suc i) (?lns ! i) \<in> set (errors ?r) \<and>
         (\<forall>d \<in> set (directives ?r). IncludeDirective.lineNumber d \<noteq> Suc i)"
    if i: "i < length ?lns" and e: "empty_path_line (?lns ! i)" for i
  proof -
    have "(Suc i, ?lns ! i) \<in> set (enumerate 1 ?lns)"
      using i by (auto simp: in_set_enumerate_eq)
    moreover have "bad_line (?lns ! i)" using e by (rule empty_path_line_bad)
    ultimately have m: "line_error (Suc i) (?lns ! i) \<in> set (errors ?r)"
      unfolding scan_errors by force
    have "IncludeDirective.lineNumber d \<noteq> Suc i" if "d \<in> set (directives ?r)" for d
      using scan_disjoint [OF that m] by (simp add: line_error_def)
    with m show ?thesis by blast
  qed
  have 2: "message (line_error n ln) = js ''Invalid @include directive: path cannot be empty''"
    by (simp add: line_error_def EMPTY_PATH_MESSAGE_def)
  have 3: "suffix (js ''path cannot be empty'') (message (line_error n ln))"
    unfolding 2 suffix_def by (rule exI [of _ "js ''Invalid @include directive: ''"]) (simp add: js_def)
  have 4: "ParseError.lineNumber (line_error n ln) = n \<and> line (line_error n ln) = ln"
    by (simp add: line_error_def)
  show ?thesis
    using 1 2 3 4 by (simp add: example_scan Let_def)
qed

theorem empty_path_lines_are_errors_witness:
  "(1::nat) < length (js_split LF example_doc) \<and>
   empty_path_line (js_split LF example_doc ! 1) \<and>
   line_error 2 (js ''@include   '') \<in> set (errors (parseIncludeDirectives env0 example_doc (js ''/project/docs''))) \<and>
   2 \<notin> IncludeDirective.lineNumber ` set (directives (parseIncludeDirectives env0 example_doc (js ''/project/docs'')))"
proof -
  have l: "js_split LF example_doc = [js ''@include'', js ''@include   '', js ''@include ./ok.md'']"
    by (simp add: example_doc_def js_def LF_def)
  have "js ''@include   '' = [] @ KEYWORD @ js ''   ''" by (simp add: KEYWORD_def js_def)
  moreover have "list_all is_ws (js ''   '')"
    by (simp add: js_def is_ws_def is_white_space_def)
  ultimately have e: "empty_path_line (js ''@include   '')"
    unfolding empty_path_line_def by (intro exI [of _ "[]"] exI [of _ "js ''   ''"]) simp
  from empty_path_lines_are_errors [of example_doc env0 "js ''/project/docs''" 0 "[]", unfolded Let_def, THEN conjunct1]
  have "\<forall>i. i < length (js_split LF example_doc) \<and> empty_path_line (js_split LF example_doc ! i) \<longrightarrow>
         line_error (Suc i) (js_split LF example_doc ! i) \<in> set (errors (parseIncludeDirectives env0 example_doc (js ''/project/docs''))) \<and>
         (\<forall>d \<in> set (directives (parseIncludeDirectives env0 example_doc (js ''/project/docs''))). IncludeDirective.lineNumber d \<noteq> Suc i)" .
  from this [rule_format, of 1] l e show ?thesis by (auto simp: numeral_2_eq_2)
qed

text \<open>
  Claim C4 as stated fails on the message: the error of the line \<open>@include\<close> does not
  have the message "path cannot be empty".
\<close>

theorem empty_path_message_counterexample:
  "message (hd (errors (parseIncludeDirectives env0 (js ''@include'') (js ''/project/docs''))))
     \<noteq> js ''path cannot be empty''"
  by (simp add: parseIncludeDirectives_def scan_eval EMPTY_PATH_MESSAGE_def)

section \<open>Paths\<close>

lemma js_split_not_Nil [simp]: "js_split sep s \<noteq> []"
  by (induction s) (auto split: list.splits)

lemma js_split_no_sep: "seg \<in> set (js_split sep s) \<Longrightarrow> sep \<notin> set seg"
  by (induction s arbitrary: seg) (auto split: list.splits if_splits)

lemma js_split_append_sep: "js_split sep (s @ sep # t) = js_split sep s @ js_split sep t"
proof (induction s)
  case Nil
  then show ?case by simp
next
  case (Cons c s)
  then show ?case
    by (cases "js_split sep s") (auto split: list.splits)
qed

lemma js_split_id: "sep \<notin> set s \<Longrightarrow> js_split sep s = [s]"
  by (induction s) auto

lemma js_split_join:
  "xs \<noteq> [] \<Longrightarrow> (\<And>x. x \<in> set xs \<Longrightarrow> sep \<notin> set x) \<Longrightarrow> js_split sep (js_join sep xs) = xs"
proof (induction sep xs rule: js_join.induct)
  case (1 sep)
  then show ?case by simp
next
  case (2 sep s)
  then show ?case by (simp add: js_split_id)
next
  case (3 sep s t ss)
  then show ?case by (simp add: js_split_append_sep js_split_id)
qed

lemma js_join_Nil_iff: "js_join sep xs = [] \<longleftrightarrow> xs = [] \<or> xs = [[]]"
  by (induction sep xs rule: js_join.induct) auto

lemma last_js_join:
  "xs \<noteq> [] \<Longrightarrow> last xs \<noteq> [] \<Longrightarrow> last (js_join sep xs) = last (last xs)"
  by (induction sep xs rule: js_join.induct) (auto simp: js_join_Nil_iff)

lemma norm_segs_result_clean:
  "list_all clean_seg acc \<Longrightarrow> (\<And>s. s \<in> set segs \<Longrightarrow> SLASH \<notin> set s) \<Longrightarrow>
   list_all clean_seg (norm_segs False acc segs)"
proof (induction segs arbitrary: acc)
  case Nil
  then show ?case by (simp add: list_all_iff)
next
  case (Cons s segs)
  have tl: "list_all clean_seg (tl acc)" using Cons.prems(1) by (cases acc) auto
  have "clean_seg s" if "s \<noteq> []" "s \<noteq> js ''.''" "s \<noteq> js ''..''"
    using that Cons.prems(2) [of s] by (simp add: clean_seg_def)
  then show ?case
    using Cons.IH [of acc] Cons.IH [of "tl acc"] Cons.IH [of "s # acc"] Cons.prems tl
    by auto
qed

lemma norm_segs_clean_append:
  "list_all clean_seg q \<Longrightarrow> norm_segs allow acc (q @ rest) = norm_segs allow (rev q @ acc) rest"
  by (induction q arbitrary: acc) (auto simp: clean_seg_def)

lemma norm_segs_clean: "list_all clean_seg q \<Longrightarrow> norm_segs allow [] q = q"
  using norm_segs_clean_append [of q allow "[]" "[]"] by simp

lemma norm_segs_clean_framed:
  "list_all clean_seg q \<Longrightarrow> norm_segs allow [] ([] # q @ [[]]) = q"
  "list_all clean_seg q \<Longrightarrow> norm_segs allow [] ([] # q) = q"
  using norm_segs_clean_append [of q allow "[]" "[[]]"] norm_segs_clean [of q allow] by simp_all

lemma js_slash: "js ''/'' = [SLASH]"
  by (simp add: js_def SLASH_def)

lemma clean_join_facts:
  assumes "list_all clean_seg q" "q \<noteq> []"
  shows "js_join SLASH q \<noteq> []" and "last (js_join SLASH q) \<noteq> SLASH"
    and "js_split SLASH (js_join SLASH q) = q"
proof -
  have last: "clean_seg (last q)" using assms by (simp add: list_all_iff)
  show "js_join SLASH q \<noteq> []"
    using assms by (cases q) (auto simp: js_join_Nil_iff clean_seg_def)
  have "last (js_join SLASH q) = last (last q)"
    using assms(2) last by (intro last_js_join) (auto simp: clean_seg_def)
  moreover have "last (last q) \<noteq> SLASH"
    using last last_in_set [of "last q"] unfolding clean_seg_def by metis
  ultimately show "last (js_join SLASH q) \<noteq> SLASH" by simp
  show "js_split SLASH (js_join SLASH q) = q"
    using assms by (intro js_split_join) (auto simp: list_all_iff clean_seg_def)
qed

lemma normalize_abs_of:
  assumes "list_all clean_seg q"
  shows "path_normalize (abs_of q trailing) = abs_of q trailing"
proof (cases "q = []")
  case True
  then show ?thesis
    by (simp add: abs_of_def path_normalize_def normalizeString_def js_slash)
next
  case False
  note f = clean_join_facts [OF assms False]
  have sp: "js_split SLASH (SLASH # js_join SLASH q) = [] # q" using f(3) by simp
  have sp2: "js_split SLASH (SLASH # js_join SLASH q @ [SLASH]) = [] # q @ [[]]"
    using js_split_append_sep [of SLASH "SLASH # js_join SLASH q" "[]"] sp by simp
  show ?thesis
  proof (cases trailing)
    case True
    then show ?thesis
      using False f(1) sp2 norm_segs_clean_framed(1) [OF assms]
      by (simp add: abs_of_def path_normalize_def normalizeString_def js_slash Let_def)
  next
    case F: False
    then show ?thesis
      using False f(1,2) sp norm_segs_clean_framed(2) [OF assms]
      by (simp add: abs_of_def path_normalize_def normalizeString_def js_slash Let_def)
  qed
qed

lemma abs_of_absolute: "path_isAbsolute (abs_of q trailing)"
  by (simp add: abs_of_def path_isAbsolute_def)

lemma normalizeString_clean:
  "list_all clean_seg (norm_segs False [] (js_split SLASH p))"
  by (rule norm_segs_result_clean) (auto dest: js_split_no_sep)

lemma path_normalize_absolute_shape:
  assumes "path_isAbsolute p"
  shows "\<exists>q t. list_all clean_seg q \<and> path_normalize p = abs_of q t"
proof -
  let ?q = "norm_segs False [] (js_split SLASH p)"
  have c: "list_all clean_seg ?q" by (rule normalizeString_clean)
  have j: "js_join SLASH ?q = [] \<longleftrightarrow> ?q = []"
    using c by (cases ?q) (auto simp: js_join_Nil_iff clean_seg_def)
  have "path_normalize p = abs_of ?q (last p = SLASH)"
    using assms j
    by (auto simp: path_normalize_def path_isAbsolute_def normalizeString_def abs_of_def js_slash Let_def)
  with c show ?thesis by blast
qed

lemma path_normalize_absolute:
  assumes "path_isAbsolute p"
  shows "path_isAbsolute (path_normalize p)" and "os_normalized (path_normalize p)"
  using path_normalize_absolute_shape [OF assms]
  by (auto simp: abs_of_absolute normalize_abs_of os_normalized_def)

lemma path_join_home:
  assumes "path_isAbsolute h"
  shows "path_isAbsolute (path_join [h, r])" and "os_normalized (path_join [h, r])"
proof -
  have "path_join [h, r] = path_normalize (if r = [] then h else h @ SLASH # r)"
    using assms by (simp add: path_join_def path_isAbsolute_def)
  moreover have "path_isAbsolute (if r = [] then h else h @ SLASH # r)"
    using assms by (simp add: path_isAbsolute_def)
  ultimately show "path_isAbsolute (path_join [h, r])" and "os_normalized (path_join [h, r])"
    using path_normalize_absolute by simp_all
qed

lemma norm_segs_trailing_empty: "norm_segs allow acc (xs @ [[]]) = norm_segs allow acc xs"
  by (induction xs arbitrary: acc) auto

lemma resolve_loop_base:
  assumes "path_isAbsolute b" "\<not> path_isAbsolute t"
  shows "resolve_loop (rev [b, t] @ [c]) [] = (if t = [] then b @ [SLASH] else b @ SLASH # t @ [SLASH], True)"
  using assms by (auto simp: path_isAbsolute_def)

lemma path_resolve_relative:
  assumes "path_isAbsolute b" "\<not> path_isAbsolute t"
  shows "path_resolve env [b, t] =
           SLASH # js_join SLASH (norm_segs False [] (js_split SLASH b @ js_split SLASH t))"
proof (cases "t = []")
  case True
  have "js_split SLASH (b @ [SLASH]) = js_split SLASH b @ [[]]"
    using js_split_append_sep [of SLASH b "[]"] by simp
  then show ?thesis
    using True resolve_loop_base [OF assms, of "cwd env"]
    by (simp add: path_resolve_def normalizeString_def js_slash norm_segs_trailing_empty)
next
  case False
  have "js_split SLASH (b @ SLASH # t @ [SLASH]) = js_split SLASH b @ js_split SLASH t @ [[]]"
    using js_split_append_sep [of SLASH b "t @ [SLASH]"] js_split_append_sep [of SLASH t "[]"]
    by simp
  then show ?thesis
    using False resolve_loop_base [OF assms, of "cwd env"]
      norm_segs_trailing_empty [of False "[]" "js_split SLASH b @ js_split SLASH t"]
    by (simp add: path_resolve_def normalizeString_def js_slash)
qed

lemma path_resolve_absolute:
  assumes "path_isAbsolute b" "\<not> path_isAbsolute t"
  shows "path_isAbsolute (path_resolve env [b, t])" and "os_normalized (path_resolve env [b, t])"
proof -
  let ?q = "norm_segs False [] (js_split SLASH b @ js_split SLASH t)"
  have c: "list_all clean_seg ?q"
    by (rule norm_segs_result_clean) (auto dest: js_split_no_sep)
  have "path_resolve env [b, t] = abs_of ?q False"
    unfolding path_resolve_relative [OF assms] by (simp add: abs_of_def)
  then show "path_isAbsolute (path_resolve env [b, t])" and "os_normalized (path_resolve env [b, t])"
    using c by (simp_all add: abs_of_absolute normalize_abs_of os_normalized_def)
qed

lemma normalizePath_trim: "normalizePath env p b = normalizePath env (js_trim p) b"
  by (simp add: normalizePath_def js_trim_idem)

lemma normalizePath_cases:
  "js_trim p = js ''~'' \<Longrightarrow> normalizePath env p b = homedir env"
  "js_trim p = js ''~/'' @ r \<Longrightarrow> normalizePath env p b = path_join [homedir env, r]"
  "path_isAbsolute (js_trim p) \<Longrightarrow> normalizePath env p b = path_normalize (js_trim p)"
  "\<not> prefix (js ''~/'') (js_trim p) \<Longrightarrow> js_trim p \<noteq> js ''~'' \<Longrightarrow> \<not> path_isAbsolute (js_trim p) \<Longrightarrow>
     normalizePath env p b = path_resolve env [b, js_trim p]"
proof -
  show "js_trim p = js ''~'' \<Longrightarrow> normalizePath env p b = homedir env"
    by (simp add: normalizePath_def)
  show "js_trim p = js ''~/'' @ r \<Longrightarrow> normalizePath env p b = path_join [homedir env, r]"
    by (simp add: normalizePath_def js_def)
  show "path_isAbsolute (js_trim p) \<Longrightarrow> normalizePath env p b = path_normalize (js_trim p)"
    by (cases "js_trim p") (auto simp: normalizePath_def path_isAbsolute_def js_def SLASH_def)
  show "\<not> prefix (js ''~/'') (js_trim p) \<Longrightarrow> js_trim p \<noteq> js ''~'' \<Longrightarrow> \<not> path_isAbsolute (js_trim p) \<Longrightarrow>
     normalizePath env p b = path_resolve env [b, js_trim p]"
    by (simp add: normalizePath_def)
qed

lemma normalizePath_absolute:
  assumes "path_isAbsolute b" "path_isAbsolute (homedir env)"
  shows "path_isAbsolute (normalizePath env p b)"
    and "os_normalized (homedir env) \<or> js_trim p \<noteq> js ''~'' \<Longrightarrow> os_normalized (normalizePath env p b)"
proof -
  consider (home) "js_trim p = js ''~''"
    | (sub) "js_trim p \<noteq> js ''~''" "prefix (js ''~/'') (js_trim p)"
    | (abs) "js_trim p \<noteq> js ''~''" "\<not> prefix (js ''~/'') (js_trim p)" "path_isAbsolute (js_trim p)"
    | (rel) "js_trim p \<noteq> js ''~''" "\<not> prefix (js ''~/'') (js_trim p)" "\<not> path_isAbsolute (js_trim p)"
    by blast
  then have "path_isAbsolute (normalizePath env p b) \<and>
    (os_normalized (homedir env) \<or> js_trim p \<noteq> js ''~'' \<longrightarrow> os_normalized (normalizePath env p b))"
  proof cases
    case home
    then show ?thesis using assms(2) by (simp add: normalizePath_cases(1))
  next
    case sub
    then obtain r where "js_trim p = js ''~/'' @ r" by (auto simp: prefix_def)
    then show ?thesis
      using path_join_home [OF assms(2)] by (simp add: normalizePath_cases(2))
  next
    case abs
    then show ?thesis
      using path_normalize_absolute [of "js_trim p"] by (simp add: normalizePath_cases(3))
  next
    case rel
    then show ?thesis
      using path_resolve_absolute [OF assms(1), of "js_trim p" env]
      by (simp add: normalizePath_cases(4))
  qed
  then show "path_isAbsolute (normalizePath env p b)"
    and "os_normalized (homedir env) \<or> js_trim p \<noteq> js ''~'' \<Longrightarrow> os_normalized (normalizePath env p b)"
    by blast+
qed

lemmas path_eval =
  normalizePath_def path_join_def path_normalize_def path_resolve_def path_isAbsolute_def
  normalizeString_def js_def SLASH_def js_trim_def is_ws_def is_white_space_def
  is_line_terminator_def Let_def




text \<open>
  Claim C5. \<open>normalizePath\<close> trims its input first. A trimmed path \<open>~\<close> gives the
  home directory and \<open>~/r\<close> gives \<open>path.join(home, r)\<close>. A trimmed path that is
  absolute is normalized on its own, without the base path, and \<open>/a//b/../c\<close> gives
  \<open>/a/c\<close>. Any other path is resolved against the base path: for an absolute base path
  the result is \<open>/\<close> followed by the segments of the base path and of the path, with
  empty and \<open>.\<close> segments dropped and \<open>..\<close> removing the segment before it.
\<close>

theorem normalizePath_conforms:
  "normalizePath env p basePath = normalizePath env (js_trim p) basePath \<and>
   normalizePath env (js ''~'') basePath = homedir env \<and>
   normalizePath env (js ''~/x'') basePath = path_join [homedir env, js ''x''] \<and>
   (js_trim p = js ''~'' \<longrightarrow> normalizePath env p basePath = homedir env) \<and>
   (\<forall>r. js_trim p = js ''~/'' @ r \<longrightarrow> normalizePath env p basePath = path_join [homedir env, r]) \<and>
   (path_isAbsolute (js_trim p) \<longrightarrow> normalizePath env p basePath = path_normalize (js_trim p)) \<and>
   normalizePath env (js ''/a//b/../c'') basePath = js ''/a/c'' \<and>
   (path_isAbsolute basePath \<and> js_trim p \<noteq> js ''~'' \<and> \<not> prefix (js ''~/'') (js_trim p) \<and>
    \<not> path_isAbsolute (js_trim p) \<longrightarrow>
      normalizePath env p basePath = path_resolve env [basePath, js_trim p] \<and>
      normalizePath env p basePath =
        SLASH # js_join SLASH
          (norm_segs False [] (js_split SLASH basePath @ js_split SLASH (js_trim p))))"
proof -
  have 1: "normalizePath env p basePath = normalizePath env (js_trim p) basePath"
    by (rule normalizePath_trim)
  have 2: "normalizePath env (js ''~'') basePath = homedir env"
    by (simp add: path_eval)
  have 3: "normalizePath env (js ''~/x'') basePath = path_join [homedir env, js ''x'']"
    by (simp add: normalizePath_def js_def js_trim_def is_ws_def is_white_space_def
        is_line_terminator_def)
  have 4: "normalizePath env (js ''/a//b/../c'') basePath = js ''/a/c''"
    by (simp add: path_eval)
  have 5: "normalizePath env p basePath = path_resolve env [basePath, js_trim p] \<and>
      normalizePath env p basePath =
        SLASH # js_join SLASH
          (norm_segs False [] (js_split SLASH basePath @ js_split SLASH (js_trim p)))"
    if "path_isAbsolute basePath" "js_trim p \<noteq> js ''~''" "\<not> prefix (js ''~/'') (js_trim p)"
      "\<not> path_isAbsolute (js_trim p)"
    using that normalizePath_cases(4) [of p env basePath]
      path_resolve_relative [of basePath "js_trim p" env] by simp
  show ?thesis
    using 1 2 3 4 5 normalizePath_cases(1,2,3) by blast
qed

theorem normalizePath_conforms_witness:
  "js_trim (js '' ~ '') = js ''~'' \<and>
   js_trim (js ''~/.claude/rules.md '') = js ''~/'' @ js ''.claude/rules.md'' \<and>
   path_isAbsolute (js_trim (js ''/etc//claude///rules.md'')) \<and>
   path_isAbsolute (js ''/project/docs'') \<and>
   js_trim (js ''../shared/rules.md'') \<noteq> js ''~'' \<and>
   \<not> prefix (js ''~/'') (js_trim (js ''../shared/rules.md'')) \<and>
   \<not> path_isAbsolute (js_trim (js ''../shared/rules.md'')) \<and>
   normalizePath env0 (js '' ~ '') (js ''/project/docs'') = js ''/home/user'' \<and>
   normalizePath env0 (js ''~/.claude/rules.md '') (js ''/project/docs'') = js ''/home/user/.claude/rules.md'' \<and>
   normalizePath env0 (js ''/etc//claude///rules.md'') (js ''/project/docs'') = js ''/etc/claude/rules.md'' \<and>
   normalizePath env0 (js ''../shared/rules.md'') (js ''/project/docs'') = js ''/project/shared/rules.md''"
proof -
  have t1: "js_trim (js '' ~ '') = js ''~''"
    by (simp add: js_trim_def js_def is_ws_def is_white_space_def is_line_terminator_def)
  have t2: "js_trim (js ''~/.claude/rules.md '') = js ''~/'' @ js ''.claude/rules.md''"
    by (simp add: js_trim_def js_def is_ws_def is_white_space_def is_line_terminator_def)
  have t3: "js_trim (js ''/etc//claude///rules.md'') = js ''/etc//claude///rules.md''"
    by (simp add: js_trim_def js_def is_ws_def is_white_space_def is_line_terminator_def)
  have t4: "js_trim (js ''../shared/rules.md'') = js ''../shared/rules.md''"
    by (simp add: js_trim_def js_def is_ws_def is_white_space_def is_line_terminator_def)
  have a3: "path_isAbsolute (js_trim (js ''/etc//claude///rules.md''))"
    unfolding t3 by (simp add: path_isAbsolute_def js_def SLASH_def)
  have b: "path_isAbsolute (js ''/project/docs'')"
    by (simp add: path_isAbsolute_def js_def SLASH_def)
  have n4: "js_trim (js ''../shared/rules.md'') \<noteq> js ''~''"
    "\<not> prefix (js ''~/'') (js_trim (js ''../shared/rules.md''))"
    "\<not> path_isAbsolute (js_trim (js ''../shared/rules.md''))"
    unfolding t4 by (simp_all add: path_isAbsolute_def js_def SLASH_def)
  have h: "path_join [homedir env0, js ''.claude/rules.md''] = js ''/home/user/.claude/rules.md''"
    by (simp add: path_eval env0_def)
  have n: "path_normalize (js ''/etc//claude///rules.md'') = js ''/etc/claude/rules.md''"
    by (simp add: path_eval)
  have r: "path_resolve env0 [js ''/project/docs'', js ''../shared/rules.md''] = js ''/project/shared/rules.md''"
    by (simp add: path_eval env0_def)
  have e: "homedir env0 = js ''/home/user''" by (simp add: env0_def)
  have c1: "js_trim (js '' ~ '') = js ''~'' \<longrightarrow>
      normalizePath env0 (js '' ~ '') (js ''/project/docs'') = homedir env0"
    using normalizePath_conforms [of env0 "js '' ~ ''" "js ''/project/docs''"] by blast
  have 1: "normalizePath env0 (js '' ~ '') (js ''/project/docs'') = js ''/home/user''"
    using c1 [rule_format, OF t1] by (simp only: e)
  have c2: "\<forall>r. js_trim (js ''~/.claude/rules.md '') = js ''~/'' @ r \<longrightarrow>
      normalizePath env0 (js ''~/.claude/rules.md '') (js ''/project/docs'') = path_join [homedir env0, r]"
    using normalizePath_conforms [of env0 "js ''~/.claude/rules.md ''" "js ''/project/docs''"] by blast
  have 2: "normalizePath env0 (js ''~/.claude/rules.md '') (js ''/project/docs'') = js ''/home/user/.claude/rules.md''"
    using c2 [rule_format, OF t2] by (simp only: h)
  have c3: "path_isAbsolute (js_trim (js ''/etc//claude///rules.md'')) \<longrightarrow>
      normalizePath env0 (js ''/etc//claude///rules.md'') (js ''/project/docs'') =
      path_normalize (js_trim (js ''/etc//claude///rules.md''))"
    using normalizePath_conforms [of env0 "js ''/etc//claude///rules.md''" "js ''/project/docs''"] by blast
  have 3: "normalizePath env0 (js ''/etc//claude///rules.md'') (js ''/project/docs'') = js ''/etc/claude/rules.md''"
    using c3 [rule_format, OF a3] by (simp only: t3 n)
  have c4: "path_isAbsolute (js ''/project/docs'') \<and> js_trim (js ''../shared/rules.md'') \<noteq> js ''~'' \<and>
      \<not> prefix (js ''~/'') (js_trim (js ''../shared/rules.md'')) \<and>
      \<not> path_isAbsolute (js_trim (js ''../shared/rules.md'')) \<longrightarrow>
      normalizePath env0 (js ''../shared/rules.md'') (js ''/project/docs'') =
      path_resolve env0 [js ''/project/docs'', js_trim (js ''../shared/rules.md'')]"
    using normalizePath_conforms [of env0 "js ''../shared/rules.md''" "js ''/project/docs''"] by blast
  have 4: "normalizePath env0 (js ''../shared/rules.md'') (js ''/project/docs'') = js ''/project/shared/rules.md''"
    using c4 b n4 by (simp only: t4 r simp_thms)
  from t1 t2 a3 b n4 1 2 3 4 show ?thesis by blast
qed

text \<open>
  Claim C8, amended. For an absolute base path and an absolute home directory, every
  directive of \<open>parseIncludeLine\<close> and of \<open>parseIncludeDirectives\<close> has an absolute
  \<open>resolvedPath\<close>; it is normalized (\<open>path.normalize\<close> leaves it as it is) when the
  home directory is normalized or the raw path is not \<open>~\<close>.
\<close>

theorem resolvedPath_absolute_normalized:
  assumes "path_isAbsolute basePath" and "path_isAbsolute (homedir env)"
  shows
    "(\<forall>d. parseIncludeLine env ln n basePath = Some d \<longrightarrow>
        path_isAbsolute (resolvedPath d) \<and>
        (os_normalized (homedir env) \<or> rawPath d \<noteq> js ''~'' \<longrightarrow> os_normalized (resolvedPath d))) \<and>
     (\<forall>d \<in> set (directives (parseIncludeDirectives env src basePath)).
        path_isAbsolute (resolvedPath d) \<and>
        (os_normalized (homedir env) \<or> rawPath d \<noteq> js ''~'' \<longrightarrow> os_normalized (resolvedPath d)))"
proof -
  have line: "path_isAbsolute (resolvedPath d) \<and>
        (os_normalized (homedir env) \<or> rawPath d \<noteq> js ''~'' \<longrightarrow> os_normalized (resolvedPath d))"
    if "parseIncludeLine env l k basePath = Some d" for l k d
  proof -
    from that obtain p where p: "extractIncludePath l = Some p"
      and d: "rawPath d = p" "resolvedPath d = normalizePath env p basePath"
      by (auto simp: parseIncludeLine_eq)
    from p obtain r where "p = js_trim r"
      by (auto simp: extractIncludePath_eq split: option.splits if_splits)
    then have tp: "js_trim p = p" by (simp add: js_trim_idem)
    show ?thesis
      using normalizePath_absolute [OF assms, of p] d tp by auto
  qed
  show ?thesis
    using line directive_of_line [of _ env src basePath] by blast
qed

theorem resolvedPath_absolute_normalized_witness:
  "path_isAbsolute (js ''/project/docs'') \<and> path_isAbsolute (homedir env0) \<and>
   os_normalized (homedir env0) \<and>
   (\<exists>d. parseIncludeLine env0 (js ''@include ~'') 1 (js ''/project/docs'') = Some d \<and>
        rawPath d = js ''~'' \<and> resolvedPath d = js ''/home/user'' \<and>
        path_isAbsolute (resolvedPath d) \<and> os_normalized (resolvedPath d)) \<and>
   (\<exists>d \<in> set (directives (parseIncludeDirectives env0 (js ''text\<newline>@include ../a/./b.md'') (js ''/project/docs''))).
        resolvedPath d = js ''/project/a/b.md'' \<and>
        path_isAbsolute (resolvedPath d) \<and> os_normalized (resolvedPath d))"
proof -
  have b: "path_isAbsolute (js ''/project/docs'')"
    by (simp add: path_isAbsolute_def js_def SLASH_def)
  have h: "path_isAbsolute (homedir env0)"
    by (simp add: path_isAbsolute_def js_def SLASH_def env0_def)
  have hn: "os_normalized (homedir env0)"
    by (simp add: os_normalized_def path_eval env0_def)
  let ?d1 = "\<lparr>originalLine = js ''@include ~'', lineNumber = 1, rawPath = js ''~'',
              resolvedPath = js ''/home/user''\<rparr>"
  have p1: "parseIncludeLine env0 (js ''@include ~'') 1 (js ''/project/docs'') = Some ?d1"
    by (simp add: scan_eval path_eval env0_def)
  let ?d2 = "\<lparr>originalLine = js ''@include ../a/./b.md'', lineNumber = 2, rawPath = js ''../a/./b.md'',
              resolvedPath = js ''/project/a/b.md''\<rparr>"
  have p2: "directives (parseIncludeDirectives env0 (js ''text\<newline>@include ../a/./b.md'') (js ''/project/docs'')) = [?d2]"
    by (simp add: parseIncludeDirectives_def scan_eval path_eval env0_def)
  note t = resolvedPath_absolute_normalized [OF b h, of "js ''@include ~''" 1
      "js ''text\<newline>@include ../a/./b.md''"]
  from t p1 hn have 1: "path_isAbsolute (resolvedPath ?d1) \<and> os_normalized (resolvedPath ?d1)"
    by blast
  from t p2 hn have 2: "path_isAbsolute (resolvedPath ?d2) \<and> os_normalized (resolvedPath ?d2)"
    by simp
  show ?thesis
    using b h hn p1 p2 1 2 by simp
qed

text \<open>
  Claim C8 as stated fails for the raw path \<open>~\<close>: the home directory is returned as it
  is, so with the absolute home directory \<open>/home//user\<close> the resolved path is not
  normalized.
\<close>

theorem resolvedPath_home_counterexample:
  "path_isAbsolute (js ''/project/docs'') \<and> path_isAbsolute (homedir env_bad_home) \<and>
   (\<exists>d. parseIncludeLine env_bad_home (js ''@include ~'') 1 (js ''/project/docs'') = Some d \<and>
        resolvedPath d = js ''/home//user'' \<and>
        path_normalize (resolvedPath d) = js ''/home/user'' \<and>
        \<not> os_normalized (resolvedPath d))"
proof -
  have b: "path_isAbsolute (js ''/project/docs'')"
    by (simp add: path_isAbsolute_def js_def SLASH_def)
  have h: "path_isAbsolute (homedir env_bad_home)"
    by (simp add: path_isAbsolute_def js_def SLASH_def env_bad_home_def)
  let ?d = "\<lparr>originalLine = js ''@include ~'', lineNumber = 1, rawPath = js ''~'',
              resolvedPath = js ''/home//user''\<rparr>"
  have p: "parseIncludeLine env_bad_home (js ''@include ~'') 1 (js ''/project/docs'') = Some ?d"
    by (simp add: scan_eval path_eval env_bad_home_def)
  have n: "path_normalize (js ''/home//user'') = js ''/home/user''"
    by (simp add: path_eval)
  have "\<not> os_normalized (js ''/home//user'')"
    unfolding os_normalized_def n by (simp add: js_def)
  with b h p n show ?thesis by simp
qed

section \<open>What a scan depends on\<close>

lemma flagless_exec [simp]: "RegExpBuiltinExec False False r i s = (rx_exec r s, i)"
  by (simp add: RegExpBuiltinExec_def split: option.splits)

lemma include_exec_pure [simp]: "include_exec st ln = (rx_exec INCLUDE_DIRECTIVE_REGEX ln, st)"
  by (simp add: include_exec_def)

lemma incomplete_exec_pure [simp]: "incomplete_exec st ln = (rx_exec INCOMPLETE_INCLUDE_REGEX ln, st)"
  by (simp add: incomplete_exec_def)

lemma parseIncludeLine_st_pure [simp]:
  "parseIncludeLine_st env st ln n basePath = (parseIncludeLine env ln n basePath, st)"
  by (simp add: parseIncludeLine_st_def parseIncludeLine_def)

lemma parse_loop_st_pure:
  "parse_loop_st env basePath i lns (ds, es) st = (parse_loop env basePath i lns (ds, es), st)"
proof (induction lns arbitrary: i ds es)
  case Nil
  then show ?case by simp
next
  case (Cons ln lns)
  show ?case
    by (simp add: Cons.IH rx_test_def Let_def split: option.splits)
qed

lemma scan_state_unchanged:
  "parseIncludeDirectives_st env st src basePath = (parseIncludeDirectives env src basePath, st)"
  by (simp add: parseIncludeDirectives_st_def parseIncludeDirectives_def parse_loop_st_pure Let_def
      split: prod.splits)

lemma path_resolve_cwd:
  "cwd env1 = cwd env2 \<Longrightarrow> path_resolve env1 args = path_resolve env2 args"
  by (simp add: path_resolve_def)

lemma normalizePath_env:
  assumes "homedir env1 = homedir env2" "path_isAbsolute basePath \<or> cwd env1 = cwd env2"
  shows "normalizePath env1 p basePath = normalizePath env2 p basePath"
proof (cases "prefix (js ''~/'') (js_trim p) \<or> js_trim p = js ''~'' \<or> path_isAbsolute (js_trim p)")
  case True
  then show ?thesis using assms(1) by (auto simp: normalizePath_def Let_def)
next
  case False
  then have rel: "\<not> path_isAbsolute (js_trim p)" by simp
  have "path_resolve env1 [basePath, js_trim p] = path_resolve env2 [basePath, js_trim p]"
    using assms(2)
  proof
    assume "path_isAbsolute basePath"
    then show ?thesis using rel by (simp add: path_resolve_relative)
  next
    assume "cwd env1 = cwd env2"
    then show ?thesis by (rule path_resolve_cwd)
  qed
  with False show ?thesis by (simp add: normalizePath_def Let_def)
qed

lemma scan_env:
  assumes "homedir env1 = homedir env2" "path_isAbsolute basePath \<or> cwd env1 = cwd env2"
  shows "parseIncludeDirectives env1 src basePath = parseIncludeDirectives env2 src basePath"
  by (simp add: parseIncludeDirectives_def parse_loop_eq Let_def parseIncludeLine_eq
      normalizePath_env [OF assms])

lemma scan_errors_content_only:
  "ParseResult.errors (parseIncludeDirectives env1 src b1) =
   ParseResult.errors (parseIncludeDirectives env2 src b2)"
  by (simp add: scan_errors)

lemma scan_raw_content_only:
  "map (\<lambda>d. (IncludeDirective.lineNumber d, originalLine d, rawPath d))
     (directives (parseIncludeDirectives env1 src b1)) =
   map (\<lambda>d. (IncludeDirective.lineNumber d, originalLine d, rawPath d))
     (directives (parseIncludeDirectives env2 src b2))"
proof -
  have "map (\<lambda>d. (IncludeDirective.lineNumber d, originalLine d, rawPath d))
     (List.map_filter (\<lambda>(n, ln). parseIncludeLine env ln n b) xs) =
     List.map_filter (\<lambda>(n, ln). map_option (\<lambda>p. (n, ln, p)) (extractIncludePath ln)) xs"
    for env b and xs :: "(nat \<times> jsstring) list"
    by (induction xs) (auto simp: List.map_filter_simps parseIncludeLine_eq split: option.splits)
  then show ?thesis by (simp add: scan_directives)
qed

text \<open>
  Claim C9, amended. A scan depends on the content, the base path and the home directory of
  the process, and on its working directory only when the base path is not absolute: two
  calls on the same content and base path, in processes that agree on these, give equal
  results, whatever the \<open>lastIndex\<close> of the two patterns is at each call. A scan has no
  side effect: it leaves the \<open>lastIndex\<close> of both patterns as it was. The errors, and the
  line number, original line and raw path of every directive, depend on the content alone.
  The \<open>originalContent\<close> of the result is the input content.
\<close>

theorem scan_deterministic_content_preserved:
  "(homedir env1 = homedir env2 \<and> (path_isAbsolute basePath \<or> cwd env1 = cwd env2) \<longrightarrow>
      parseIncludeDirectives_st env1 st1 src basePath = (parseIncludeDirectives env1 src basePath, st1) \<and>
      parseIncludeDirectives_st env2 st2 src basePath = (parseIncludeDirectives env1 src basePath, st2)) \<and>
   fst (parseIncludeDirectives_st env1 st1 src basePath) = parseIncludeDirectives env1 src basePath \<and>
   snd (parseIncludeDirectives_st env1 st1 src basePath) = st1 \<and>
   ParseResult.errors (parseIncludeDirectives env1 src basePath) =
     ParseResult.errors (parseIncludeDirectives env2 src basePath2) \<and>
   map (\<lambda>d. (IncludeDirective.lineNumber d, originalLine d, rawPath d))
     (directives (parseIncludeDirectives env1 src basePath)) =
   map (\<lambda>d. (IncludeDirective.lineNumber d, originalLine d, rawPath d))
     (directives (parseIncludeDirectives env2 src basePath2)) \<and>
   originalContent (parseIncludeDirectives env1 src basePath) = src"
proof -
  have 1: "parseIncludeDirectives_st env2 st2 src basePath = (parseIncludeDirectives env1 src basePath, st2)"
    if "homedir env1 = homedir env2" "path_isAbsolute basePath \<or> cwd env1 = cwd env2"
    using scan_env [OF that, of src] by (simp add: scan_state_unchanged)
  have 2: "originalContent (parseIncludeDirectives env1 src basePath) = src"
    by (simp add: parseIncludeDirectives_def Let_def split: prod.splits)
  show ?thesis
    using 1 2 scan_errors_content_only [of env1 src basePath env2 basePath2]
      scan_raw_content_only [of env1 src basePath env2 basePath2]
    by (simp add: scan_state_unchanged)
qed

theorem scan_deterministic_content_preserved_witness:
  "homedir env0 = homedir env_other_cwd \<and> path_isAbsolute (js ''/project/docs'') \<and>
   cwd env0 \<noteq> cwd env_other_cwd \<and>
   parseIncludeDirectives_st env0 \<lparr>includeLastIndex = 0, incompleteLastIndex = 0\<rparr>
      example_doc (js ''/project/docs'') =
     (parseIncludeDirectives env0 example_doc (js ''/project/docs''),
      \<lparr>includeLastIndex = 0, incompleteLastIndex = 0\<rparr>) \<and>
   parseIncludeDirectives_st env_other_cwd \<lparr>includeLastIndex = 7, incompleteLastIndex = 3\<rparr>
      example_doc (js ''/project/docs'') =
     (parseIncludeDirectives env0 example_doc (js ''/project/docs''),
      \<lparr>includeLastIndex = 7, incompleteLastIndex = 3\<rparr>) \<and>
   map resolvedPath (directives (parseIncludeDirectives env0 example_doc (js ''/project/docs''))) =
     [js ''/project/docs/ok.md'']"
proof -
  have h: "homedir env0 = homedir env_other_cwd" by (simp add: env0_def env_other_cwd_def)
  have b: "path_isAbsolute (js ''/project/docs'')"
    by (simp add: path_isAbsolute_def js_def SLASH_def)
  have c: "cwd env0 \<noteq> cwd env_other_cwd" by (simp add: env0_def env_other_cwd_def js_def)
  have r: "map resolvedPath (directives (parseIncludeDirectives env0 example_doc (js ''/project/docs''))) =
     [js ''/project/docs/ok.md'']"
    by code_simp
  from scan_deterministic_content_preserved [of env0 env_other_cwd "js ''/project/docs''"
      "\<lparr>includeLastIndex = 0, incompleteLastIndex = 0\<rparr>" example_doc
      "\<lparr>includeLastIndex = 7, incompleteLastIndex = 3\<rparr>"] h b c r
  show ?thesis by blast
qed

text \<open>
  Claim C9 as stated fails: the same content and base path give different results in two
  processes with different home directories.
\<close>

theorem scan_home_counterexample:
  "parseIncludeDirectives env0 (js ''@include ~'') (js ''/project/docs'') \<noteq>
   parseIncludeDirectives env_bad_home (js ''@include ~'') (js ''/project/docs'') \<and>
   map resolvedPath (directives (parseIncludeDirectives env0 (js ''@include ~'') (js ''/project/docs''))) =
     [js ''/home/user''] \<and>
   map resolvedPath (directives (parseIncludeDirectives env_bad_home (js ''@include ~'') (js ''/project/docs''))) =
     [js ''/home//user'']"
proof -
  have 1: "map resolvedPath (directives (parseIncludeDirectives env0 (js ''@include ~'') (js ''/project/docs''))) =
     [js ''/home/user'']"
    by code_simp
  have 2: "map resolvedPath (directives (parseIncludeDirectives env_bad_home (js ''@include ~'') (js ''/project/docs''))) =
     [js ''/home//user'']"
    by code_simp
  have "js ''/home/user'' \<noteq> js ''/home//user''" by (simp add: js_def)
  with 1 2 show ?thesis by force
qed

section \<open>The resolver\<close>

declare resolve.simps [simp del]

lemma resolve_paths:
  "ProcessResult.includedPaths (resolve pol env src basePath opts) =
     concat (map (\<lambda>d. fst (snd (expand pol env opts d)))
                 (directives (parseIncludeDirectives env src basePath)))"
  by (simp add: resolve.simps [of pol env src basePath opts] Let_def expand_def [abs_def] comp_def)

lemma resolve_errors:
  "ProcessResult.errors (resolve pol env src basePath opts) =
     map (scan_error pol basePath) (ParseResult.errors (parseIncludeDirectives env src basePath)) @
     concat (map (\<lambda>d. snd (snd (expand pol env opts d)))
                 (directives (parseIncludeDirectives env src basePath)))"
  by (simp add: resolve.simps [of pol env src basePath opts] Let_def expand_def [abs_def] comp_def)

lemma readFile_descend [simp]: "readFile (descend opts p) = readFile opts"
  by (simp add: descend_def)

lemma ancestors_descend [simp]:
  "ProcessOptions.includedPaths (descend opts p) = insert p (ProcessOptions.includedPaths opts)"
  by (simp add: descend_def)

lemma depth_descend [simp]:
  "currentDepth (descend opts p) = currentDepth opts + 1" "maxDepth (descend opts p) = maxDepth opts"
  by (simp_all add: descend_def)

lemma expand_circular:
  "currentDepth opts < maxDepth opts \<Longrightarrow> resolvedPath d \<in> ProcessOptions.includedPaths opts \<Longrightarrow>
   expand pol env opts d = (skipped pol d, [], [directive_error pol circular_include d])"
  by (simp add: expand_def)

lemma expand_read:
  "currentDepth opts < maxDepth opts \<Longrightarrow> resolvedPath d \<notin> ProcessOptions.includedPaths opts \<Longrightarrow>
   readFile opts (resolvedPath d) = Content body \<Longrightarrow>
   expand pol env opts d =
     (ProcessResult.content (resolve pol env body (path_dirname (resolvedPath d)) (descend opts (resolvedPath d))),
      resolvedPath d #
        ProcessResult.includedPaths (resolve pol env body (path_dirname (resolvedPath d)) (descend opts (resolvedPath d))),
      ProcessResult.errors (resolve pol env body (path_dirname (resolvedPath d)) (descend opts (resolvedPath d))))"
  by (simp add: expand_def Let_def)

text \<open>What an entry of a directive's errors or paths can be.\<close>

lemma expand_error_cases:
  assumes "e \<in> set (snd (snd (expand pol env opts d)))"
  obtains (direct) k where "e = directive_error pol k d"
      "k = circular_include \<longrightarrow> resolvedPath d \<in> ProcessOptions.includedPaths opts"
    | (nested) body where "\<not> maxDepth opts \<le> currentDepth opts"
      "resolvedPath d \<notin> ProcessOptions.includedPaths opts"
      "readFile opts (resolvedPath d) = Content body"
      "e \<in> set (ProcessResult.errors (resolve pol env body (path_dirname (resolvedPath d))
                  (descend opts (resolvedPath d))))"
  using assms
  by (auto simp: expand_def Let_def split: if_splits read_outcome.splits)

lemma expand_path_cases:
  assumes "p \<in> set (fst (snd (expand pol env opts d)))"
  obtains body where "\<not> maxDepth opts \<le> currentDepth opts"
      "resolvedPath d \<notin> ProcessOptions.includedPaths opts"
      "readFile opts (resolvedPath d) = Content body"
      "p = resolvedPath d \<or>
       p \<in> set (ProcessResult.includedPaths (resolve pol env body (path_dirname (resolvedPath d))
                  (descend opts (resolvedPath d))))"
  using assms
  by (auto simp: expand_def Let_def split: if_splits read_outcome.splits)

lemma type_directive_error [simp]:
  "type (directive_error pol k d) = k" "filePath (directive_error pol k d) = resolvedPath d"
  by (simp_all add: directive_error_def)

lemma type_scan_error [simp]: "type (scan_error pol b e) = parse_error"
  by (simp add: scan_error_def)

lemma paths_not_ancestors:
  "p \<in> set (ProcessResult.includedPaths (resolve pol env src basePath opts)) \<Longrightarrow>
   p \<notin> ProcessOptions.includedPaths opts"
proof (induction pol env src basePath opts rule: resolve.induct)
  case (1 pol env src basePath opts)
  from "1.prems" obtain d where d: "d \<in> set (directives (parseIncludeDirectives env src basePath))"
    and p: "p \<in> set (fst (snd (expand pol env opts d)))"
    by (auto simp: resolve_paths)
  from p show ?case
  proof (cases rule: expand_path_cases)
    case (1 body)
    from "1"(4) show ?thesis
    proof
      assume "p = resolvedPath d"
      with "1"(2) show ?thesis by simp
    next
      assume "p \<in> set (ProcessResult.includedPaths (resolve pol env body (path_dirname (resolvedPath d))
                  (descend opts (resolvedPath d))))"
      from "1.IH" [OF refl d "1"(1,2,3) this] show ?thesis by simp
    qed
  qed
qed

lemma circular_reached:
  "e \<in> set (ProcessResult.errors (resolve pol env src basePath opts)) \<Longrightarrow> type e = circular_include \<Longrightarrow>
   \<exists>d \<in> set (directives (parseIncludeDirectives env src basePath)).
     (file_includes env (readFile opts))\<^sup>*\<^sup>* (resolvedPath d) (filePath e)"
proof (induction pol env src basePath opts rule: resolve.induct)
  case (1 pol env src basePath opts)
  from "1.prems" obtain d where d: "d \<in> set (directives (parseIncludeDirectives env src basePath))"
    and e: "e \<in> set (snd (snd (expand pol env opts d)))"
    by (auto simp: resolve_errors)
  from e have "(file_includes env (readFile opts))\<^sup>*\<^sup>* (resolvedPath d) (filePath e)"
  proof (cases rule: expand_error_cases)
    case (direct k)
    then show ?thesis by simp
  next
    case (nested body)
    from "1.IH" [OF refl d nested(1,2,3,4) "1.prems"(2)]
    obtain d' where d': "d' \<in> set (directives (parseIncludeDirectives env body (path_dirname (resolvedPath d))))"
      and r: "(file_includes env (readFile opts))\<^sup>*\<^sup>* (resolvedPath d') (filePath e)"
      by auto
    have "file_includes env (readFile opts) (resolvedPath d) (resolvedPath d')"
      unfolding file_includes_def using nested(3) d' by blast
    with r show ?thesis by (meson converse_rtranclp_into_rtranclp)
  qed
  with d show ?case by blast
qed

lemma circular_is_cycle:
  "e \<in> set (ProcessResult.errors (resolve pol env src basePath opts)) \<Longrightarrow> type e = circular_include \<Longrightarrow>
   filePath e \<in> ProcessOptions.includedPaths opts \<or>
   (file_includes env (readFile opts))\<^sup>+\<^sup>+ (filePath e) (filePath e)"
proof (induction pol env src basePath opts rule: resolve.induct)
  case (1 pol env src basePath opts)
  from "1.prems" obtain d where d: "d \<in> set (directives (parseIncludeDirectives env src basePath))"
    and e: "e \<in> set (snd (snd (expand pol env opts d)))"
    by (auto simp: resolve_errors)
  from e show ?case
  proof (cases rule: expand_error_cases)
    case (direct k)
    with "1.prems"(2) show ?thesis by simp
  next
    case (nested body)
    from "1.IH" [OF refl d nested(1,2,3,4) "1.prems"(2)]
    have "filePath e = resolvedPath d \<or> filePath e \<in> ProcessOptions.includedPaths opts \<or>
          (file_includes env (readFile opts))\<^sup>+\<^sup>+ (filePath e) (filePath e)"
      by auto
    moreover have "(file_includes env (readFile opts))\<^sup>+\<^sup>+ (filePath e) (filePath e)"
      if eq: "filePath e = resolvedPath d"
    proof -
      from circular_reached [OF nested(4) "1.prems"(2)]
      obtain d' where d': "d' \<in> set (directives (parseIncludeDirectives env body (path_dirname (resolvedPath d))))"
        and r: "(file_includes env (readFile opts))\<^sup>*\<^sup>* (resolvedPath d') (filePath e)"
        by auto
      have "file_includes env (readFile opts) (resolvedPath d) (resolvedPath d')"
        unfolding file_includes_def using nested(3) d' by blast
      with r have "(file_includes env (readFile opts))\<^sup>+\<^sup>+ (resolvedPath d) (filePath e)"
        by (meson rtranclp_into_tranclp2)
      with eq show ?thesis by simp
    qed
    ultimately show ?thesis by blast
  qed
qed

lemma expand_circular_reached:
  assumes "e \<in> set (snd (snd (expand pol env opts d)))" "type e = circular_include"
  shows "(file_includes env (readFile opts))\<^sup>*\<^sup>* (resolvedPath d) (filePath e)"
  using assms(1)
proof (cases rule: expand_error_cases)
  case (direct k)
  then show ?thesis by simp
next
  case (nested body)
  from circular_reached [OF nested(4) assms(2)]
  obtain d' where d': "d' \<in> set (directives (parseIncludeDirectives env body (path_dirname (resolvedPath d))))"
    and r: "(file_includes env (readFile opts))\<^sup>*\<^sup>* (resolvedPath d') (filePath e)"
    by auto
  have "file_includes env (readFile opts) (resolvedPath d) (resolvedPath d')"
    unfolding file_includes_def using nested(3) d' by blast
  with r show ?thesis by (meson converse_rtranclp_into_rtranclp)
qed

lemma filter_circular_scan [simp]:
  "filter (circular_for p) (map (scan_error pol b) es) = []"
  by (induction es) (auto simp: circular_for_def)

lemma filter_circular_unreached:
  assumes "\<forall>d' \<in> set ds. \<not> (file_includes env (readFile opts))\<^sup>*\<^sup>* (resolvedPath d') F"
  shows "filter (circular_for F) (concat (map (\<lambda>d. snd (snd (expand pol env opts d))) ds)) = []"
proof -
  have "\<not> circular_for F e" if "d' \<in> set ds" "e \<in> set (snd (snd (expand pol env opts d')))" for d' e
  proof
    assume "circular_for F e"
    then have "type e = circular_include" "filePath e = F" by (simp_all add: circular_for_def)
    with expand_circular_reached [OF that(2)] assms that(1) show False by auto
  qed
  then show ?thesis by (auto simp: filter_empty_conv)
qed

lemma self_include_under_ancestor:
  assumes ds: "directives (parseIncludeDirectives env src basePath) = pre @ d # post"
    and self: "resolvedPath d = F"
    and others: "\<forall>d' \<in> set (pre @ post). \<not> (file_includes env (readFile opts))\<^sup>*\<^sup>* (resolvedPath d') F"
    and anc: "F \<in> ProcessOptions.includedPaths opts"
    and depth: "currentDepth opts < maxDepth opts"
  shows "filter (circular_for F) (ProcessResult.errors (resolve pol env src basePath opts)) =
           [directive_error pol circular_include d]"
proof -
  have pre: "filter (circular_for F) (concat (map (\<lambda>d. snd (snd (expand pol env opts d))) pre)) = []"
    using others by (intro filter_circular_unreached) auto
  have post: "filter (circular_for F) (concat (map (\<lambda>d. snd (snd (expand pol env opts d))) post)) = []"
    using others by (intro filter_circular_unreached) auto
  have d: "snd (snd (expand pol env opts d)) = [directive_error pol circular_include d]"
    using expand_circular [OF depth, of d pol env] anc self by simp
  show ?thesis
    unfolding resolve_errors ds using pre post d self
    by (simp add: circular_for_def)
qed

lemma paths_reached:
  "p \<in> set (ProcessResult.includedPaths (resolve pol env src basePath opts)) \<Longrightarrow>
   \<exists>d \<in> set (directives (parseIncludeDirectives env src basePath)).
     (file_includes env (readFile opts))\<^sup>*\<^sup>* (resolvedPath d) p"
proof (induction pol env src basePath opts rule: resolve.induct)
  case (1 pol env src basePath opts)
  from "1.prems" obtain d where d: "d \<in> set (directives (parseIncludeDirectives env src basePath))"
    and p: "p \<in> set (fst (snd (expand pol env opts d)))"
    by (auto simp: resolve_paths)
  from p have "(file_includes env (readFile opts))\<^sup>*\<^sup>* (resolvedPath d) p"
  proof (cases rule: expand_path_cases)
    case (1 body)
    from "1"(4) show ?thesis
    proof
      assume "p = resolvedPath d"
      then show ?thesis by simp
    next
      assume n: "p \<in> set (ProcessResult.includedPaths (resolve pol env body (path_dirname (resolvedPath d))
                  (descend opts (resolvedPath d))))"
      from "1.IH" [OF refl d "1"(1,2,3) n]
      obtain d' where d': "d' \<in> set (directives (parseIncludeDirectives env body (path_dirname (resolvedPath d))))"
        and r: "(file_includes env (readFile opts))\<^sup>*\<^sup>* (resolvedPath d') p"
        by auto
      have "file_includes env (readFile opts) (resolvedPath d) (resolvedPath d')"
        unfolding file_includes_def using "1"(3) d' by blast
      with r show ?thesis by (meson converse_rtranclp_into_rtranclp)
    qed
  qed
  with d show ?case by blast
qed

lemma expand_path_reached:
  assumes "p \<in> set (fst (snd (expand pol env opts d)))"
  shows "(file_includes env (readFile opts))\<^sup>*\<^sup>* (resolvedPath d) p"
  using assms
proof (cases rule: expand_path_cases)
  case (1 body)
  from "1"(4) show ?thesis
  proof
    assume "p = resolvedPath d"
    then show ?thesis by simp
  next
    assume "p \<in> set (ProcessResult.includedPaths (resolve pol env body (path_dirname (resolvedPath d))
                  (descend opts (resolvedPath d))))"
    from paths_reached [OF this]
    obtain d' where d': "d' \<in> set (directives (parseIncludeDirectives env body (path_dirname (resolvedPath d))))"
      and r: "(file_includes env (readFile opts))\<^sup>*\<^sup>* (resolvedPath d') p"
      by auto
    have "file_includes env (readFile opts) (resolvedPath d) (resolvedPath d')"
      unfolding file_includes_def using "1"(3) d' by blast
    with r show ?thesis by (meson converse_rtranclp_into_rtranclp)
  qed
qed

lemma count_paths_unreached:
  assumes "\<forall>d' \<in> set ds. \<not> (file_includes env (readFile opts))\<^sup>*\<^sup>* (resolvedPath d') p"
  shows "count_list (concat (map (\<lambda>d. fst (snd (expand pol env opts d))) ds)) p = 0"
  using assms expand_path_reached [of p pol env opts]
  by (auto simp: count_list_0_iff)

lemma count_list_concat_append [simp]: "count_list (xs @ ys) x = count_list xs x + count_list ys x"
  by (induction xs) auto

lemma with_leaf_file_includes:
  "file_includes env0 with_leaf_file x y \<Longrightarrow> x = js ''/f.md''"
proof -
  assume "file_includes env0 with_leaf_file x y"
  then obtain body where b: "with_leaf_file x = Content body"
    and y: "y \<in> resolvedPath ` set (directives (parseIncludeDirectives env0 body (path_dirname x)))"
    by (auto simp: file_includes_def)
  have "directives (parseIncludeDirectives env0 (js ''notes'') (path_dirname (js ''/g.md''))) = []"
    by code_simp
  with b y show ?thesis by (auto simp: with_leaf_file_def split: if_splits)
qed

lemma leaf_file_includes_nothing: "\<not> file_includes env0 leaf_file x y"
proof
  assume "file_includes env0 leaf_file x y"
  then obtain body where b: "leaf_file x = Content body"
    and y: "y \<in> resolvedPath ` set (directives (parseIncludeDirectives env0 body (path_dirname x)))"
    by (auto simp: file_includes_def)
  from b have x: "x = js ''/p.md''" "body = js ''shared text''"
    by (auto simp: leaf_file_def split: if_splits)
  have "directives (parseIncludeDirectives env0 (js ''shared text'') (path_dirname (js ''/p.md''))) = []"
    by code_simp
  with y x show False by simp
qed

lemma chain_file_includes: "file_includes env0 chain_file x y \<Longrightarrow> y = js ''/q.md''"
proof -
  assume "file_includes env0 chain_file x y"
  then obtain body where b: "chain_file x = Content body"
    and y: "y \<in> resolvedPath ` set (directives (parseIncludeDirectives env0 body (path_dirname x)))"
    by (auto simp: file_includes_def)
  from b have x: "(x = js ''/p.md'' \<or> x = js ''/q.md'') \<and> body = js ''@include /q.md''"
    by (auto simp: chain_file_def split: if_splits)
  have 1: "map resolvedPath (directives (parseIncludeDirectives env0 (js ''@include /q.md'') (path_dirname (js ''/p.md'')))) = [js ''/q.md'']"
    by code_simp
  have 2: "map resolvedPath (directives (parseIncludeDirectives env0 (js ''@include /q.md'') (path_dirname (js ''/q.md'')))) = [js ''/q.md'']"
    by code_simp
  from x y 1 2 show ?thesis
    by (auto simp: image_set simp del: set_map)
qed

lemma chain_file_acyclic_p:
  "\<not> (file_includes env0 chain_file)\<^sup>+\<^sup>+ (js ''/p.md'') (js ''/p.md'')"
proof
  assume "(file_includes env0 chain_file)\<^sup>+\<^sup>+ (js ''/p.md'') (js ''/p.md'')"
  then obtain z where "file_includes env0 chain_file z (js ''/p.md'')"
    by (auto elim: tranclp.cases)
  from chain_file_includes [OF this] show False by (simp add: js_def)
qed

text \<open>
  Claim C1, amended. Let the file \<open>F\<close> be readable, let exactly one directive of its
  content resolve to \<open>F\<close> itself and let no other directive of the content lead back to
  \<open>F\<close>. Then resolving the content of \<open>F\<close> from the directory of \<open>F\<close>, with two
  levels of depth left (one when \<open>F\<close> is among the ancestors given to the call), returns
  (the resolver is a total function: the depth left decreases with every nested call) and
  the errors contain exactly one \<open>circular_include\<close> error for \<open>F\<close>. When \<open>F\<close> is not
  among the ancestors, the directive is expanded once and skipped inside that expansion,
  and \<open>F\<close> occurs once in \<open>includedPaths\<close>; when it is, the directive itself is skipped
  and \<open>F\<close> does not occur in \<open>includedPaths\<close>.
\<close>

theorem self_inclusion_one_circular_error:
  assumes readable: "readFile opts F = Content src"
    and depth: "currentDepth opts + (if F \<in> ProcessOptions.includedPaths opts then 1 else 2) \<le> maxDepth opts"
    and ds: "directives (parseIncludeDirectives env src (path_dirname F)) = pre @ d # post"
    and self: "resolvedPath d = F"
    and others: "\<forall>d' \<in> set (pre @ post). \<not> (file_includes env (readFile opts))\<^sup>*\<^sup>* (resolvedPath d') F"
  shows "let res = resolve pol env src (path_dirname F) opts;
             sub = resolve pol env src (path_dirname F) (descend opts F)
         in filter (circular_for F) (ProcessResult.errors res) = [directive_error pol circular_include d] \<and>
            length (filter (circular_for F) (ProcessResult.errors res)) = 1 \<and>
            count_list (ProcessResult.includedPaths res) F =
              (if F \<in> ProcessOptions.includedPaths opts then 0 else 1) \<and>
            (if F \<in> ProcessOptions.includedPaths opts then
               expand pol env opts d = (skipped pol d, [], [directive_error pol circular_include d])
             else
               expand pol env opts d =
                 (ProcessResult.content sub, F # ProcessResult.includedPaths sub, ProcessResult.errors sub) \<and>
               expand pol env (descend opts F) d =
                 (skipped pol d, [], [directive_error pol circular_include d]))"
proof -
  let ?res = "resolve pol env src (path_dirname F) opts"
  let ?sub = "resolve pol env src (path_dirname F) (descend opts F)"
  let ?f = "\<lambda>d. fst (snd (expand pol env opts d))"
  have d1: "currentDepth opts < maxDepth opts" using depth by (simp split: if_splits)
  have pre: "filter (circular_for F) (concat (map (\<lambda>d. snd (snd (expand pol env opts d))) pre)) = []"
    using others by (intro filter_circular_unreached) auto
  have post: "filter (circular_for F) (concat (map (\<lambda>d. snd (snd (expand pol env opts d))) post)) = []"
    using others by (intro filter_circular_unreached) auto
  have cpre: "count_list (concat (map ?f pre)) F = 0"
    using others by (intro count_paths_unreached) auto
  have cpost: "count_list (concat (map ?f post)) F = 0"
    using others by (intro count_paths_unreached) auto
  have paths: "ProcessResult.includedPaths ?res = concat (map ?f pre) @ ?f d @ concat (map ?f post)"
    by (simp add: resolve_paths ds)
  show ?thesis
  proof (cases "F \<in> ProcessOptions.includedPaths opts")
    case True
    have e: "expand pol env opts d = (skipped pol d, [], [directive_error pol circular_include d])"
      using expand_circular [OF d1, of d pol env] True self by simp
    have errs: "filter (circular_for F) (ProcessResult.errors ?res) = [directive_error pol circular_include d]"
      using others d1 True by (intro self_include_under_ancestor [OF ds self])
    show ?thesis
      using True errs e cpre cpost by (simp add: Let_def paths)
  next
    case False
    then have d2: "currentDepth (descend opts F) < maxDepth (descend opts F)"
      using depth by simp
    have e: "expand pol env opts d =
        (ProcessResult.content ?sub, F # ProcessResult.includedPaths ?sub, ProcessResult.errors ?sub)"
      using expand_read [OF d1, of d src pol env] False self readable by simp
    have e': "expand pol env (descend opts F) d = (skipped pol d, [], [directive_error pol circular_include d])"
      using expand_circular [OF d2, of d pol env] self by simp
    have sub: "filter (circular_for F) (ProcessResult.errors ?sub) = [directive_error pol circular_include d]"
      using others d2 by (intro self_include_under_ancestor [OF ds self]) simp_all
    have errs: "filter (circular_for F) (ProcessResult.errors ?res) = [directive_error pol circular_include d]"
      unfolding resolve_errors ds using pre post e sub by simp
    have notin: "F \<notin> set (ProcessResult.includedPaths ?sub)"
      using paths_not_ancestors [of F pol env src "path_dirname F" "descend opts F"] by auto
    then have "count_list (ProcessResult.includedPaths ?sub) F = 0" by (simp add: count_list_0_iff)
    then have cnt: "count_list (ProcessResult.includedPaths ?res) F = 1"
      using cpre cpost e by (simp add: paths)
    show ?thesis
      using False errs e e' cnt by (simp add: Let_def)
  qed
qed

theorem self_inclusion_one_circular_error_witness:
  "readFile (default_options with_leaf_file) (js ''/f.md'') =
     Content (js ''@include /f.md\<newline>@include /g.md'') \<and>
   js ''/f.md'' \<notin> ProcessOptions.includedPaths (default_options with_leaf_file) \<and>
   currentDepth (default_options with_leaf_file) + 2 \<le> maxDepth (default_options with_leaf_file) \<and>
   map resolvedPath (directives (parseIncludeDirectives env0 (js ''@include /f.md\<newline>@include /g.md'')
      (path_dirname (js ''/f.md'')))) = [js ''/f.md'', js ''/g.md''] \<and>
   \<not> (file_includes env0 (readFile (default_options with_leaf_file)))\<^sup>*\<^sup>* (js ''/g.md'') (js ''/f.md'') \<and>
   length (filter (circular_for (js ''/f.md''))
     (ProcessResult.errors (resolve example_policy env0 (js ''@include /f.md\<newline>@include /g.md'')
        (path_dirname (js ''/f.md'')) (default_options with_leaf_file)))) = 1 \<and>
   count_list (ProcessResult.includedPaths (resolve example_policy env0
        (js ''@include /f.md\<newline>@include /g.md'') (path_dirname (js ''/f.md''))
        (default_options with_leaf_file))) (js ''/f.md'') = 1"
proof -
  let ?o = "default_options with_leaf_file"
  let ?src = "js ''@include /f.md\<newline>@include /g.md''"
  let ?d = "\<lparr>originalLine = js ''@include /f.md'', lineNumber = 1, rawPath = js ''/f.md'',
             resolvedPath = js ''/f.md''\<rparr>"
  let ?g = "\<lparr>originalLine = js ''@include /g.md'', lineNumber = 2, rawPath = js ''/g.md'',
             resolvedPath = js ''/g.md''\<rparr>"
  have rf: "readFile ?o = with_leaf_file" by (simp add: default_options_def)
  have r: "readFile ?o (js ''/f.md'') = Content ?src"
    by (simp add: default_options_def with_leaf_file_def)
  have a: "js ''/f.md'' \<notin> ProcessOptions.includedPaths ?o"
    by (simp add: default_options_def)
  have dp2: "currentDepth ?o + 2 \<le> maxDepth ?o"
    by (simp add: default_options_def DEFAULT_MAX_DEPTH_def)
  have dp: "currentDepth ?o + (if js ''/f.md'' \<in> ProcessOptions.includedPaths ?o then 1 else 2) \<le> maxDepth ?o"
    using a dp2 by simp
  have ds: "directives (parseIncludeDirectives env0 ?src (path_dirname (js ''/f.md''))) = [] @ ?d # [?g]"
    by code_simp
  have s: "resolvedPath ?d = js ''/f.md''" by simp
  have ne: "js ''/g.md'' \<noteq> js ''/f.md''" by (simp add: js_def)
  have nr: "\<not> (file_includes env0 (readFile ?o))\<^sup>*\<^sup>* (js ''/g.md'') (js ''/f.md'')"
  proof
    assume "(file_includes env0 (readFile ?o))\<^sup>*\<^sup>* (js ''/g.md'') (js ''/f.md'')"
    then obtain y where "file_includes env0 with_leaf_file (js ''/g.md'') y"
      unfolding rf using ne by (auto elim: converse_rtranclpE)
    from with_leaf_file_includes [OF this] ne show False by simp
  qed
  then have o: "\<forall>d' \<in> set ([] @ [?g]). \<not> (file_includes env0 (readFile ?o))\<^sup>*\<^sup>* (resolvedPath d') (js ''/f.md'')"
    by simp
  have m: "map resolvedPath (directives (parseIncludeDirectives env0 ?src (path_dirname (js ''/f.md'')))) =
      [js ''/f.md'', js ''/g.md'']"
    unfolding ds by simp
  from self_inclusion_one_circular_error [OF r dp ds s o, of example_policy] a
  have "length (filter (circular_for (js ''/f.md''))
     (ProcessResult.errors (resolve example_policy env0 ?src (path_dirname (js ''/f.md'')) ?o))) = 1"
    and "count_list (ProcessResult.includedPaths (resolve example_policy env0 ?src
        (path_dirname (js ''/f.md'')) ?o)) (js ''/f.md'') = 1"
    by (simp_all add: Let_def)
  with r a dp2 m nr show ?thesis by blast
qed

text \<open>
  Claim C1 as stated fails. A file that includes itself in two directives gives four
  \<open>circular_include\<close> errors for its path (two when its path is given as an ancestor). At
  top level the directive of a self-including file is expanded once, not skipped. With only
  one level of depth the error is \<open>max_depth\<close>, not \<open>circular_include\<close>. A file that
  also includes a file that includes it back gives three \<open>circular_include\<close> errors for
  its path.
\<close>

theorem self_inclusion_counterexample:
  "readFile (default_options twice_self_file) (js ''/f.md'') =
     Content (js ''@include /f.md\<newline>@include ./f.md'') \<and>
   map resolvedPath (directives (parseIncludeDirectives env0 (js ''@include /f.md\<newline>@include ./f.md'')
      (path_dirname (js ''/f.md'')))) = [js ''/f.md'', js ''/f.md''] \<and>
   length (filter (circular_for (js ''/f.md''))
     (ProcessResult.errors (resolve example_policy env0 (js ''@include /f.md\<newline>@include ./f.md'')
        (path_dirname (js ''/f.md'')) (default_options twice_self_file)))) = 4 \<and>
   length (filter (circular_for (js ''/f.md''))
     (ProcessResult.errors (resolve example_policy env0 (js ''@include /f.md\<newline>@include ./f.md'')
        (path_dirname (js ''/f.md''))
        ((default_options twice_self_file)\<lparr>ProcessOptions.includedPaths := {js ''/f.md''}\<rparr>)))) = 2 \<and>
   readFile (default_options self_file) (js ''/f.md'') = Content (js ''@include /f.md'') \<and>
   ProcessResult.includedPaths (resolve example_policy env0 (js ''@include /f.md'')
        (path_dirname (js ''/f.md'')) (default_options self_file)) = [js ''/f.md''] \<and>
   map type (ProcessResult.errors (resolve example_policy env0 (js ''@include /f.md'')
        (path_dirname (js ''/f.md'')) ((default_options self_file)\<lparr>maxDepth := 1\<rparr>))) = [max_depth] \<and>
   readFile (default_options mutual_file) (js ''/f.md'') =
     Content (js ''@include /f.md\<newline>@include /g.md'') \<and>
   map resolvedPath (directives (parseIncludeDirectives env0 (js ''@include /f.md\<newline>@include /g.md'')
      (path_dirname (js ''/f.md'')))) = [js ''/f.md'', js ''/g.md''] \<and>
   length (filter (circular_for (js ''/f.md''))
     (ProcessResult.errors (resolve example_policy env0 (js ''@include /f.md\<newline>@include /g.md'')
        (path_dirname (js ''/f.md'')) (default_options mutual_file)))) = 3"
  by code_simp

text \<open>
  Claim C2, amended. Let two directives of a document resolve to the same readable file
  \<open>P\<close>, in a call with depth left in which \<open>P\<close> is not among the ancestors. Then both
  directives are expanded, each to the same result: the content, \<open>P\<close> followed by the
  paths, and the errors of the resolution of \<open>P\<close>'s content. So \<open>P\<close> occurs at least
  twice in \<open>includedPaths\<close>, and exactly twice when no other directive of the document
  leads to \<open>P\<close>. No \<open>circular_include\<close> error for \<open>P\<close> is produced when \<open>P\<close> does
  not reach itself through inclusions, and no \<open>circular_include\<close> error at all when no
  file reached from the directives of the document is an ancestor or reaches itself.
\<close>

theorem diamond_inclusion:
  assumes depth: "currentDepth opts < maxDepth opts"
    and fresh: "P \<notin> ProcessOptions.includedPaths opts"
    and readable: "readFile opts P = Content body"
    and ds: "directives (parseIncludeDirectives env src basePath) = pre @ d1 # mid @ d2 # post"
    and same: "resolvedPath d1 = P" "resolvedPath d2 = P"
  shows "let res = resolve pol env src basePath opts;
             sub = resolve pol env body (path_dirname P) (descend opts P)
         in expand pol env opts d1 =
              (ProcessResult.content sub, P # ProcessResult.includedPaths sub, ProcessResult.errors sub) \<and>
            expand pol env opts d2 =
              (ProcessResult.content sub, P # ProcessResult.includedPaths sub, ProcessResult.errors sub) \<and>
            2 \<le> count_list (ProcessResult.includedPaths res) P \<and>
            ((\<forall>d' \<in> set (pre @ mid @ post).
                \<not> (file_includes env (readFile opts))\<^sup>*\<^sup>* (resolvedPath d') P) \<longrightarrow>
               count_list (ProcessResult.includedPaths res) P = 2) \<and>
            (\<not> (file_includes env (readFile opts))\<^sup>+\<^sup>+ P P \<longrightarrow>
               (\<forall>e \<in> set (ProcessResult.errors res). \<not> circular_for P e)) \<and>
            ((\<forall>d \<in> set (pre @ d1 # mid @ d2 # post). \<forall>q.
                (file_includes env (readFile opts))\<^sup>*\<^sup>* (resolvedPath d) q \<longrightarrow>
                  q \<notin> ProcessOptions.includedPaths opts \<and>
                  \<not> (file_includes env (readFile opts))\<^sup>+\<^sup>+ q q) \<longrightarrow>
               (\<forall>e \<in> set (ProcessResult.errors res). type e \<noteq> circular_include))"
proof -
  let ?res = "resolve pol env src basePath opts"
  let ?sub = "resolve pol env body (path_dirname P) (descend opts P)"
  let ?f = "\<lambda>d. fst (snd (expand pol env opts d))"
  have e1: "expand pol env opts d1 =
      (ProcessResult.content ?sub, P # ProcessResult.includedPaths ?sub, ProcessResult.errors ?sub)"
    using expand_read [OF depth, of d1 body pol env] fresh readable same by simp
  have e2: "expand pol env opts d2 =
      (ProcessResult.content ?sub, P # ProcessResult.includedPaths ?sub, ProcessResult.errors ?sub)"
    using expand_read [OF depth, of d2 body pol env] fresh readable same by simp
  have paths: "ProcessResult.includedPaths ?res =
      concat (map ?f pre) @ (P # ProcessResult.includedPaths ?sub) @ concat (map ?f mid) @
      (P # ProcessResult.includedPaths ?sub) @ concat (map ?f post)"
    by (simp add: resolve_paths ds e1 e2)
  then have two: "2 \<le> count_list (ProcessResult.includedPaths ?res) P" by simp
  have notin: "P \<notin> set (ProcessResult.includedPaths ?sub)"
    using paths_not_ancestors [of P pol env body "path_dirname P" "descend opts P"] by auto
  then have c0: "count_list (ProcessResult.includedPaths ?sub) P = 0" by (simp add: count_list_0_iff)
  have exact: "count_list (ProcessResult.includedPaths ?res) P = 2"
    if o: "\<forall>d' \<in> set (pre @ mid @ post).
                \<not> (file_includes env (readFile opts))\<^sup>*\<^sup>* (resolvedPath d') P"
  proof -
    have "count_list (concat (map ?f pre)) P = 0" using o by (intro count_paths_unreached) auto
    moreover have "count_list (concat (map ?f mid)) P = 0" using o by (intro count_paths_unreached) auto
    moreover have "count_list (concat (map ?f post)) P = 0" using o by (intro count_paths_unreached) auto
    ultimately show ?thesis using c0 by (simp add: paths)
  qed
  have nocirc: "\<not> circular_for P e"
    if "\<not> (file_includes env (readFile opts))\<^sup>+\<^sup>+ P P" "e \<in> set (ProcessResult.errors ?res)" for e
  proof
    assume "circular_for P e"
    then have "type e = circular_include" "filePath e = P" by (simp_all add: circular_for_def)
    with circular_is_cycle [OF that(2)] fresh that(1) show False by auto
  qed
  have none: "type e \<noteq> circular_include"
    if ac: "\<forall>d \<in> set (pre @ d1 # mid @ d2 # post). \<forall>q.
                (file_includes env (readFile opts))\<^sup>*\<^sup>* (resolvedPath d) q \<longrightarrow>
                  q \<notin> ProcessOptions.includedPaths opts \<and>
                  \<not> (file_includes env (readFile opts))\<^sup>+\<^sup>+ q q"
      and e: "e \<in> set (ProcessResult.errors ?res)" for e
  proof
    assume c: "type e = circular_include"
    from circular_reached [OF e c] obtain d where "d \<in> set (pre @ d1 # mid @ d2 # post)"
      and "(file_includes env (readFile opts))\<^sup>*\<^sup>* (resolvedPath d) (filePath e)"
      unfolding ds by blast
    with ac have "filePath e \<notin> ProcessOptions.includedPaths opts"
      "\<not> (file_includes env (readFile opts))\<^sup>+\<^sup>+ (filePath e) (filePath e)" by blast+
    with circular_is_cycle [OF e c] show False by blast
  qed
  show ?thesis
    unfolding Let_def using e1 e2 two exact nocirc none by (intro conjI impI ballI) blast+
qed

theorem diamond_inclusion_witness:
  "currentDepth (default_options leaf_file) < maxDepth (default_options leaf_file) \<and>
   js ''/p.md'' \<notin> ProcessOptions.includedPaths (default_options leaf_file) \<and>
   readFile (default_options leaf_file) (js ''/p.md'') = Content (js ''shared text'') \<and>
   map resolvedPath (directives (parseIncludeDirectives env0 diamond_doc (js ''/''))) =
     [js ''/p.md'', js ''/p.md''] \<and>
   \<not> (file_includes env0 (readFile (default_options leaf_file)))\<^sup>+\<^sup>+ (js ''/p.md'') (js ''/p.md'') \<and>
   ProcessResult.includedPaths (resolve example_policy env0 diamond_doc (js ''/'')
        (default_options leaf_file)) = [js ''/p.md'', js ''/p.md''] \<and>
   count_list (ProcessResult.includedPaths (resolve example_policy env0 diamond_doc (js ''/'')
        (default_options leaf_file))) (js ''/p.md'') = 2 \<and>
   filter (circular_for (js ''/p.md'')) (ProcessResult.errors (resolve example_policy env0
        diamond_doc (js ''/'') (default_options leaf_file))) = [] \<and>
   filter (\<lambda>e. type e = circular_include) (ProcessResult.errors (resolve example_policy env0
        diamond_doc (js ''/'') (default_options leaf_file))) = []"
proof -
  let ?o = "default_options leaf_file"
  let ?d1 = "\<lparr>originalLine = js ''@include /p.md'', lineNumber = Suc 0, rawPath = js ''/p.md'',
             resolvedPath = js ''/p.md''\<rparr>"
  let ?d2 = "\<lparr>originalLine = js ''@include ./p.md'', lineNumber = 2, rawPath = js ''./p.md'',
             resolvedPath = js ''/p.md''\<rparr>"
  let ?res = "resolve example_policy env0 diamond_doc (js ''/'') ?o"
  let ?sub = "resolve example_policy env0 (js ''shared text'') (path_dirname (js ''/p.md'')) (descend ?o (js ''/p.md''))"
  have dp: "currentDepth ?o < maxDepth ?o"
    by (simp add: default_options_def DEFAULT_MAX_DEPTH_def)
  have fr: "js ''/p.md'' \<notin> ProcessOptions.includedPaths ?o"
    by (simp add: default_options_def)
  have rd: "readFile ?o (js ''/p.md'') = Content (js ''shared text'')"
    by (simp add: default_options_def leaf_file_def)
  have rf: "readFile ?o = leaf_file" by (simp add: default_options_def)
  have ds: "directives (parseIncludeDirectives env0 diamond_doc (js ''/'')) = [] @ ?d1 # [] @ ?d2 # []"
    by code_simp
  have s: "resolvedPath ?d1 = js ''/p.md''" "resolvedPath ?d2 = js ''/p.md''" by simp_all
  have ac: "\<not> (file_includes env0 (readFile ?o))\<^sup>+\<^sup>+ q q" for q
    unfolding rf using leaf_file_includes_nothing by (auto dest: tranclpD)
  have top: "ProcessOptions.includedPaths ?o = {}" by (simp add: default_options_def)
  have sp: "ProcessResult.includedPaths ?sub = []"
    by code_simp
  note t = diamond_inclusion [OF dp fr rd ds s, of example_policy, unfolded Let_def]
  have o: "\<forall>d' \<in> set ([] @ [] @ []).
      \<not> (file_includes env0 (readFile ?o))\<^sup>*\<^sup>* (resolvedPath d') (js ''/p.md'')"
    by simp
  from t o have c: "count_list (ProcessResult.includedPaths ?res) (js ''/p.md'') = 2" by blast
  from t have e1: "expand example_policy env0 ?o ?d1 =
      (ProcessResult.content ?sub, js ''/p.md'' # ProcessResult.includedPaths ?sub, ProcessResult.errors ?sub)"
    and e2: "expand example_policy env0 ?o ?d2 =
      (ProcessResult.content ?sub, js ''/p.md'' # ProcessResult.includedPaths ?sub, ProcessResult.errors ?sub)"
    by blast+
  have "ProcessResult.includedPaths ?res =
      js ''/p.md'' # ProcessResult.includedPaths ?sub @ js ''/p.md'' # ProcessResult.includedPaths ?sub"
    by (simp add: resolve_paths [of example_policy env0 diamond_doc] ds e1 e2)
  then have p: "ProcessResult.includedPaths ?res = [js ''/p.md'', js ''/p.md'']"
    by (simp only: sp append_Nil)
  from t ac [of "js ''/p.md''"] have "\<forall>e \<in> set (ProcessResult.errors ?res). \<not> circular_for (js ''/p.md'') e"
    by blast
  then have f1: "filter (circular_for (js ''/p.md'')) (ProcessResult.errors ?res) = []"
    by (simp add: filter_empty_conv)
  have "\<forall>d \<in> set ([] @ ?d1 # [] @ ?d2 # []). \<forall>q.
      (file_includes env0 (readFile ?o))\<^sup>*\<^sup>* (resolvedPath d) q \<longrightarrow>
        q \<notin> ProcessOptions.includedPaths ?o \<and> \<not> (file_includes env0 (readFile ?o))\<^sup>+\<^sup>+ q q"
    using ac top by simp
  with t have "\<forall>e \<in> set (ProcessResult.errors ?res). type e \<noteq> circular_include"
    by blast
  then have f: "filter (\<lambda>e. type e = circular_include) (ProcessResult.errors ?res) = []"
    by (simp add: filter_empty_conv)
  have m: "map resolvedPath (directives (parseIncludeDirectives env0 diamond_doc (js ''/''))) =
     [js ''/p.md'', js ''/p.md'']"
    unfolding ds by simp
  from dp fr rd m ac [of "js ''/p.md''"] p c f1 f show ?thesis by blast
qed

text \<open>
  Claim C2 as stated fails. When \<open>P\<close> includes a file that includes itself, \<open>P\<close> does
  not reach itself and yet two \<open>circular_include\<close> errors are produced. When \<open>P\<close> cannot
  be read, when no depth is left, or when \<open>P\<close> is given as an ancestor, \<open>P\<close> does not
  occur in \<open>includedPaths\<close>, and in the last case two \<open>circular_include\<close> errors are
  produced. With a third directive for \<open>P\<close> it occurs three times.
\<close>

theorem diamond_inclusion_counterexample:
  "map resolvedPath (directives (parseIncludeDirectives env0 diamond_doc (js ''/''))) =
     [js ''/p.md'', js ''/p.md''] \<and>
   \<not> (file_includes env0 (readFile (default_options chain_file)))\<^sup>+\<^sup>+ (js ''/p.md'') (js ''/p.md'') \<and>
   map type (ProcessResult.errors (resolve example_policy env0 diamond_doc (js ''/'')
      (default_options chain_file))) = [circular_include, circular_include] \<and>
   ProcessResult.includedPaths (resolve example_policy env0 diamond_doc (js ''/'')
      (default_options no_file)) = [] \<and>
   ProcessResult.includedPaths (resolve example_policy env0 diamond_doc (js ''/'')
      ((default_options leaf_file)\<lparr>maxDepth := 0\<rparr>)) = [] \<and>
   map type (ProcessResult.errors (resolve example_policy env0 diamond_doc (js ''/'')
      ((default_options leaf_file)\<lparr>ProcessOptions.includedPaths := {js ''/p.md''}\<rparr>))) =
     [circular_include, circular_include] \<and>
   count_list (ProcessResult.includedPaths (resolve example_policy env0
      (js ''@include /p.md\<newline>@include ./p.md\<newline>@include /p.md'') (js ''/'')
      (default_options leaf_file))) (js ''/p.md'') = 3"
proof -
  have rf: "readFile (default_options chain_file) = chain_file" by (simp add: default_options_def)
  have a: "\<not> (file_includes env0 (readFile (default_options chain_file)))\<^sup>+\<^sup>+ (js ''/p.md'') (js ''/p.md'')"
    unfolding rf by (rule chain_file_acyclic_p)
  have 1: "map resolvedPath (directives (parseIncludeDirectives env0 diamond_doc (js ''/''))) =
     [js ''/p.md'', js ''/p.md'']"
    by code_simp
  have 2: "map type (ProcessResult.errors (resolve example_policy env0 diamond_doc (js ''/'')
      (default_options chain_file))) = [circular_include, circular_include]"
    by code_simp
  have 3: "ProcessResult.includedPaths (resolve example_policy env0 diamond_doc (js ''/'')
      (default_options no_file)) = []"
    by code_simp
  have 4: "ProcessResult.includedPaths (resolve example_policy env0 diamond_doc (js ''/'')
      ((default_options leaf_file)\<lparr>maxDepth := 0\<rparr>)) = []"
    by code_simp
  have 5: "map type (ProcessResult.errors (resolve example_policy env0 diamond_doc (js ''/'')
      ((default_options leaf_file)\<lparr>ProcessOptions.includedPaths := {js ''/p.md''}\<rparr>))) =
     [circular_include, circular_include]"
    by code_simp
  have 6: "count_list (ProcessResult.includedPaths (resolve example_policy env0
      (js ''@include /p.md\<newline>@include ./p.md\<newline>@include /p.md'') (js ''/'')
      (default_options leaf_file))) (js ''/p.md'') = 3"
    by code_simp
  from a 1 2 3 4 5 6 show ?thesis by blast
qed

end
